theory Spec2Isabelle
  imports Main
begin

section \<open>The token image preload hook\<close>

text \<open>
  A shallow embedding of \<^verbatim>\<open>usePreloadTokenImages\<close>
  (\<^verbatim>\<open>packages/app/src/hooks/usePreloadTokenImages.ts\<close>).

  The hook keeps a set of cache keys in a ref, and its effect arms a timer of 100 ms whose
  callback, \<^verbatim>\<open>preloadInBatches\<close>, walks the \<^verbatim>\<open>vaults\<close> array in slices of 15, calls
  \<^verbatim>\<open>preloadImage\<close> on every element of a slice, awaits \<^verbatim>\<open>Promise.allSettled\<close> of the
  slice and then sleeps 150 ms unless the slice was the last one.

  Every effect of the code is a field of the record \<open>state\<close>: the array the hook was
  rendered with, the ref's set, the pending timer, the query client's cache, and a trace
  of the calls the code makes to its surroundings (console, query client, timers).
\<close>

subsection \<open>Data\<close>

datatype error = Error string

record Asset =
  address :: string

record VaultData =
  chainId :: int
  asset :: Asset

text \<open>
  The query key \<^verbatim>\<open>['token-image', chainId, address.toLowerCase()]\<close> and the
  cache of the query client, which holds the data of a query under its key. The data of
  these queries are strings (the \<^verbatim>\<open>queryFn\<close> is a \<^verbatim>\<open>Promise<string>\<close>);
  \<^verbatim>\<open>undefined\<close> is \<open>None\<close>.
\<close>

type_synonym queryKey = "string \<times> int \<times> string"

type_synonym queryCache = "queryKey \<rightharpoonup> string"

text \<open>
  What the hook takes from outside the file: \<^verbatim>\<open>getSvgAsset\<close> of
  \<^verbatim>\<open>@/utils/logos\<close>; the browser, which for the image behind a URL fires
  \<^verbatim>\<open>onload\<close> or \<^verbatim>\<open>onerror\<close> after some time (the time only orders the
  completions of the loads that are in flight together); and the query client, a library.
  Of \<^verbatim>\<open>queryClient.prefetchQuery\<close> the model fixes nothing: it is a function that, from
  the query key, the outcome its \<^verbatim>\<open>queryFn\<close> has when run and the cache as it is, gives
  the outcome of the promise and the cache afterwards, so that what is proved for every
  environment holds of every client. The client the hook is run with is the one of the
  library, \<open>libraryClient\<close> below.
\<close>

record env =
  getSvgAsset :: "int \<Rightarrow> string \<Rightarrow> string"
  imageLoads :: "string \<Rightarrow> bool"
  latency :: "string \<Rightarrow> nat"
  prefetchQuery :: "queryKey \<Rightarrow> error + string \<Rightarrow> queryCache \<Rightarrow> (error + unit) \<times> queryCache"

text \<open>
  The calls that leave the hook, in the order they are made. \<open>GetQueryData\<close> is the
  read of the cache, \<open>PrefetchQuery\<close> the call of \<^verbatim>\<open>queryClient.prefetchQuery\<close>
  with the query key and the URL its \<^verbatim>\<open>queryFn\<close> loads: the load attempt.
  \<open>AllSettled\<close> is the call of \<^verbatim>\<open>Promise.allSettled\<close> on the promises of a slice,
  \<open>SetTimeout\<close> the awaited \<^verbatim>\<open>setTimeout(resolve, delay)\<close>.
\<close>

datatype event =
    ConsoleLog string
  | ConsoleDebug string error
  | GetQueryData queryKey
  | PrefetchQuery queryKey string
  | AllSettled "VaultData list"
  | SetTimeout nat

record state =
  vaults :: "VaultData list"
  preloadedSet :: "string set"
  timer :: "nat option"
  cache :: queryCache
  trace :: "event list"

text \<open>A \<^verbatim>\<open>preloadImage\<close> call suspended at its \<^verbatim>\<open>await\<close>.\<close>

record pending =
  p_address :: string
  p_queryKey :: queryKey
  p_imageUrl :: string

datatype 'a settled = Fulfilled 'a | Rejected error

subsection \<open>Strings and numbers\<close>

text \<open>
  \<^verbatim>\<open>String.prototype.toLowerCase\<close>. A character of a string is a code unit below 256:
  the letters \<open>A\<close> to \<open>Z\<close> (65 to 90) and the capital letters of Latin-1 (192 to 222
  but for the multiplication sign 215) go to the code unit 32 above, every other character
  stays. A number in a template literal is printed in decimal (chain ids are integers
  far below \<open>10\<^sup>2\<^sup>1\<close>, where JavaScript changes to the exponent form).
\<close>

definition toLowerChar :: "char \<Rightarrow> char" where
  "toLowerChar c =
     (let n = (of_char c :: nat)
      in if (65 \<le> n \<and> n \<le> 90) \<or> (192 \<le> n \<and> n \<le> 222 \<and> n \<noteq> 215)
         then char_of (n + 32) else c)"

definition toLowerCase :: "string \<Rightarrow> string" where
  "toLowerCase a = map toLowerChar a"






fun nat_toString :: "nat \<Rightarrow> string" where
  "nat_toString n =
     (if n < 10 then [char_of (48 + n)]
      else nat_toString (n div 10) @ [char_of (48 + n mod 10)])"

definition number_toString :: "int \<Rightarrow> string" where
  "number_toString i =
     (if i < 0 then CHR ''-'' # nat_toString (nat (- i)) else nat_toString (nat i))"

subsection \<open>The query client and the image\<close>

definition truthy :: "string option \<Rightarrow> bool" where
  "truthy v = (case v of None \<Rightarrow> False | Some d \<Rightarrow> d \<noteq> [])"

definition getQueryData :: "queryCache \<Rightarrow> queryKey \<Rightarrow> string option" where
  "getQueryData c k = c k"

text \<open>
  The \<^verbatim>\<open>queryFn\<close> of the source: a promise that resolves with the URL when the image
  loads and rejects with \<^verbatim>\<open>new Error('Failed to load image')\<close> when it does not.
\<close>

definition queryFn :: "env \<Rightarrow> string \<Rightarrow> error + string" where
  "queryFn e imageUrl =
     (if imageLoads e imageUrl then Inr imageUrl else Inl (Error ''Failed to load image''))"

text \<open>
  The query client as the library has it. \<^verbatim>\<open>prefetchQuery\<close> does not run the
  \<^verbatim>\<open>queryFn\<close> for a key whose data it holds and takes to be fresh (younger than
  \<^verbatim>\<open>staleTime\<close>); otherwise it runs it and stores the data of a resolved
  \<^verbatim>\<open>queryFn\<close> under the key. Its promise never rejects: an error of the
  \<^verbatim>\<open>queryFn\<close> is swallowed. \<open>stale\<close> says which keys the client takes to be stale.
\<close>

definition libraryClient :: "(queryKey \<Rightarrow> bool) \<Rightarrow> queryKey \<Rightarrow> error + string \<Rightarrow> queryCache \<Rightarrow> (error + unit) \<times> queryCache" where
  "libraryClient stale k r c =
     (if c k \<noteq> None \<and> \<not> stale k then (Inr (), c)
      else case r of Inr d \<Rightarrow> (Inr (), c(k \<mapsto> d)) | Inl err \<Rightarrow> (Inr (), c))"

text \<open>
  A property a query client may have: it writes, if at all, the data of the
  \<^verbatim>\<open>queryFn\<close> under the key it was called with.
\<close>

definition writesOwnKey :: "env \<Rightarrow> bool" where
  "writesOwnKey e =
     (\<forall>k r c. snd (prefetchQuery e k r c) = c \<or>
        (\<exists>d. r = Inr d \<and> snd (prefetchQuery e k r c) = c(k \<mapsto> d)))"

definition Promise_allSettled :: "(error + 'a) list \<Rightarrow> error + 'a settled list" where
  "Promise_allSettled rs = Inr (map (case_sum Rejected Fulfilled) rs)"

definition slice :: "'a list \<Rightarrow> nat \<Rightarrow> nat \<Rightarrow> 'a list" where
  "slice xs i j = take (j - i) (drop i xs)"

subsection \<open>preloadImage\<close>

definition queryKeyOf :: "int \<Rightarrow> string \<Rightarrow> queryKey" where
  "queryKeyOf cid addr = (''token-image'', cid, toLowerCase addr)"

definition cacheKeyOf :: "int \<Rightarrow> string \<Rightarrow> string" where
  "cacheKeyOf cid addr = number_toString cid @ ''-'' @ toLowerCase addr"

text \<open>
  \<^verbatim>\<open>preloadImage\<close> up to its \<^verbatim>\<open>await\<close>: the two early returns, the insertion into
  the set and the call of \<^verbatim>\<open>prefetchQuery\<close>. JavaScript runs this part without
  interruption. \<open>None\<close> is a call that returned early, its promise already fulfilled.
\<close>

definition preloadImage_start :: "env \<Rightarrow> int \<Rightarrow> string \<Rightarrow> state \<Rightarrow> pending option \<times> state" where
  "preloadImage_start e cid addr s =
     (let imageUrl = getSvgAsset e cid addr;
          queryKey = queryKeyOf cid addr;
          cacheKey = cacheKeyOf cid addr
      in if cacheKey \<in> preloadedSet s then (None, s)
         else let s1 = s\<lparr>trace := trace s @ [GetQueryData queryKey]\<rparr>;
                  cachedData = getQueryData (cache s1) queryKey
              in if truthy cachedData then (None, s1)
                 else (Some \<lparr>p_address = addr, p_queryKey = queryKey, p_imageUrl = imageUrl\<rparr>,
                       s1\<lparr>preloadedSet := insert cacheKey (preloadedSet s1),
                          trace := trace s1 @ [PrefetchQuery queryKey imageUrl]\<rparr>))"

text \<open>
  \<^verbatim>\<open>preloadImage\<close> from its \<^verbatim>\<open>await\<close> on: the image has loaded or failed, the
  query client has done its part, and the \<^verbatim>\<open>catch\<close> turns a rejection into a
  \<^verbatim>\<open>console.debug\<close>. The result is the outcome of the promise of
  \<^verbatim>\<open>preloadImage\<close>.
\<close>

definition preloadImage_settle :: "env \<Rightarrow> pending \<Rightarrow> state \<Rightarrow> (error + unit) \<times> state" where
  "preloadImage_settle e p s =
     (case prefetchQuery e (p_queryKey p) (queryFn e (p_imageUrl p)) (cache s) of
        (Inr _, c) \<Rightarrow> (Inr (), s\<lparr>cache := c\<rparr>)
      | (Inl err, c) \<Rightarrow>
          (Inr (), s\<lparr>cache := c,
                     trace := trace s @
                       [ConsoleDebug (''Failed to preload image for '' @ p_address p @ '':'') err]\<rparr>))"

subsection \<open>A batch\<close>

text \<open>
  \<^verbatim>\<open>batch.map((vault) => preloadImage(vault.chainId, vault.asset.address))\<close> runs the
  first part of every call, in the order of the slice, before any of the loads completes.
\<close>

fun issueAll :: "env \<Rightarrow> VaultData list \<Rightarrow> state \<Rightarrow> pending option list \<times> state" where
  "issueAll e [] s = ([], s)"
| "issueAll e (v # vs) s =
     (case preloadImage_start e (chainId v) (address (asset v)) s of
        (p, s1) \<Rightarrow> (case issueAll e vs s1 of (ps, s2) \<Rightarrow> (p # ps, s2)))"

text \<open>
  The loads in flight complete in the order of their latencies, one after the other
  (the event loop runs one completion at a time).
\<close>

definition completionOrder :: "env \<Rightarrow> pending list \<Rightarrow> pending list" where
  "completionOrder e ps = sort_key (\<lambda>p. latency e (p_imageUrl p)) ps"

fun settleAll :: "env \<Rightarrow> pending list \<Rightarrow> state \<Rightarrow> (error + unit) list \<times> state" where
  "settleAll e [] s = ([], s)"
| "settleAll e (p # ps) s =
     (case preloadImage_settle e p s of
        (r, s1) \<Rightarrow> (case settleAll e ps s1 of (rs, s2) \<Rightarrow> (r # rs, s2)))"

text \<open>
  \<^verbatim>\<open>await Promise.allSettled(batch.map(...))\<close>: the calls are started, their promises
  are handed to \<^verbatim>\<open>Promise.allSettled\<close>, and the loads complete. The outcomes are those
  of the calls that returned early, then those of the loads as they complete; the source
  drops the array of outcomes.
\<close>

definition allSettledBatch :: "env \<Rightarrow> VaultData list \<Rightarrow> state \<Rightarrow> (error + unit settled list) \<times> state" where
  "allSettledBatch e batch s =
     (case issueAll e batch s of
        (ps, s1) \<Rightarrow>
          (case settleAll e (completionOrder e (List.map_filter id ps))
                  (s1\<lparr>trace := trace s1 @ [AllSettled batch]\<rparr>) of
             (rs, s2) \<Rightarrow>
               (Promise_allSettled (map (\<lambda>_. Inr ()) (filter (\<lambda>p. p = None) ps) @ rs), s2)))"

subsection \<open>preloadInBatches\<close>

definition batchSize :: nat where
  "batchSize = 15"

definition delay :: nat where
  "delay = 150"

text \<open>The body of the \<^verbatim>\<open>for\<close> loop at index \<open>i\<close>. An \<^verbatim>\<open>await\<close> of a rejected promise throws.\<close>

definition loopBody :: "env \<Rightarrow> nat \<Rightarrow> state \<Rightarrow> (error + unit) \<times> state" where
  "loopBody e i s =
     (let batch = slice (vaults s) i (i + batchSize)
      in case allSettledBatch e batch s of
           (Inl err, s1) \<Rightarrow> (Inl err, s1)
         | (Inr _, s1) \<Rightarrow>
             (Inr (),
              if i + batchSize < length (vaults s1)
              then s1\<lparr>trace := trace s1 @ [SetTimeout delay]\<rparr>
              else s1))"

text \<open>The loop reads \<^verbatim>\<open>vaults.length\<close> at every turn; nothing in the file writes the array.\<close>

lemma vaults_preloadImage_start:
  "preloadImage_start e c a s = (p, s') \<Longrightarrow> vaults s' = vaults s"
  by (auto simp: preloadImage_start_def Let_def split: if_splits)

lemma vaults_preloadImage_settle:
  "preloadImage_settle e p s = (r, s') \<Longrightarrow> vaults s' = vaults s"
  by (auto simp: preloadImage_settle_def split: sum.splits prod.splits)

lemma vaults_issueAll: "issueAll e vs s = (ps, s') \<Longrightarrow> vaults s' = vaults s"
proof (induction vs arbitrary: s ps)
  case Nil
  then show ?case by simp
next
  case (Cons v vs)
  then show ?case
    by (auto split: prod.splits dest: vaults_preloadImage_start)
qed

lemma vaults_settleAll: "settleAll e ps s = (rs, s') \<Longrightarrow> vaults s' = vaults s"
proof (induction ps arbitrary: s rs)
  case Nil
  then show ?case by simp
next
  case (Cons p ps)
  then show ?case
    by (auto split: prod.splits dest: vaults_preloadImage_settle)
qed

lemma vaults_allSettledBatch: "allSettledBatch e b s = (r, s') \<Longrightarrow> vaults s' = vaults s"
  by (auto simp: allSettledBatch_def split: prod.splits dest!: vaults_issueAll vaults_settleAll)

lemma vaults_loopBody: "loopBody e i s = (r, s') \<Longrightarrow> vaults s' = vaults s"
  by (auto simp: loopBody_def Let_def split: prod.splits sum.splits if_splits
      dest!: vaults_allSettledBatch)

text \<open>\<^verbatim>\<open>for (let i = 0; i < vaults.length; i += batchSize)\<close>, from index \<open>i\<close> on.\<close>

function preloadLoop :: "env \<Rightarrow> nat \<Rightarrow> state \<Rightarrow> (error + unit) \<times> state" where
  "preloadLoop e i s =
     (if i < length (vaults s)
      then case loopBody e i s of
             (Inl err, s1) \<Rightarrow> (Inl err, s1)
           | (Inr _, s1) \<Rightarrow> preloadLoop e (i + batchSize) s1
      else (Inr (), s))"
  by pat_completeness auto
termination
proof (relation "measure (\<lambda>(e, i, s). length (vaults s) - i)")
  show "wf (measure (\<lambda>(e, i, s). length (vaults s) - i))" by simp
next
  fix e i s x s1 u
  assume lt: "i < length (vaults s)" and b: "(x, s1) = loopBody e i s"
  have "vaults s1 = vaults s" using vaults_loopBody [OF b [symmetric]] .
  with lt show "((e, i + batchSize, s1), (e, i, s)) \<in> measure (\<lambda>(e, i, s). length (vaults s) - i)"
    by (simp add: batchSize_def)
qed

declare preloadLoop.simps [simp del]

definition preloadInBatches :: "env \<Rightarrow> state \<Rightarrow> (error + unit) \<times> state" where
  "preloadInBatches e s =
     (let s0 = s\<lparr>trace := trace s @
                  [ConsoleLog (''Starting to preload '' @ nat_toString (length (vaults s)) @
                     '' token images in batches of '' @ nat_toString batchSize)]\<rparr>
      in case preloadLoop e 0 s0 of
           (Inl err, s1) \<Rightarrow> (Inl err, s1)
         | (Inr _, s1) \<Rightarrow>
             (Inr (), s1\<lparr>trace := trace s1 @ [ConsoleLog ''Finished preloading token images'']\<rparr>))"

subsection \<open>The hook and its effect\<close>

text \<open>
  The effect returns at once on an empty array; otherwise it arms
  \<^verbatim>\<open>setTimeout(preloadInBatches, 100)\<close>. Its cleanup is \<^verbatim>\<open>clearTimeout(timeoutId)\<close>.
  \<open>timer s\<close> is the time left on the armed timer.
\<close>

definition effect :: "state \<Rightarrow> state" where
  "effect s = (if vaults s = [] then s else s\<lparr>timer := Some 100\<rparr>)"

definition cleanup :: "state \<Rightarrow> state" where
  "cleanup s = s\<lparr>timer := None\<rparr>"

text \<open>
  The first render of a component that uses the hook: \<^verbatim>\<open>useRef(new Set<string>())\<close>
  makes the set, then the effect runs. The cache and the console are those of the page.
\<close>

definition mount :: "VaultData list \<Rightarrow> queryCache \<Rightarrow> event list \<Rightarrow> state" where
  "mount vs c tr =
     effect \<lparr>vaults = vs, preloadedSet = {}, timer = None, cache = c, trace = tr\<rparr>"

text \<open>
  A later render with another array (the dependency \<^verbatim>\<open>vaults\<close> has changed): React
  runs the cleanup of the last effect, then the effect again. The ref is the same object
  as before. Unmounting runs the cleanup.
\<close>

definition rerender :: "VaultData list \<Rightarrow> state \<Rightarrow> state" where
  "rerender vs s = effect (cleanup (s\<lparr>vaults := vs\<rparr>))"

definition unmount :: "state \<Rightarrow> state" where
  "unmount s = cleanup s"

text \<open>
  Time passes: \<open>t\<close> milliseconds. An armed timer that is due fires, and
  \<^verbatim>\<open>preloadInBatches\<close> runs; the promise it returns is dropped.
\<close>

definition elapse :: "env \<Rightarrow> nat \<Rightarrow> state \<Rightarrow> state" where
  "elapse e t s =
     (case timer s of
        None \<Rightarrow> s
      | Some r \<Rightarrow>
          if t < r then s\<lparr>timer := Some (r - t)\<rparr>
          else snd (preloadInBatches e (s\<lparr>timer := None\<rparr>)))"

text \<open>
  The model runs a fired run to its end before anything else happens: a render or an
  unmount while a run is in flight is not part of it. Time may pass in several steps,
  each with the images and the query client as they are then.
\<close>

definition elapseAll :: "(env \<times> nat) list \<Rightarrow> state \<Rightarrow> state" where
  "elapseAll steps s = fold (\<lambda>(e, t). elapse e t) steps s"

subsection \<open>Reading a trace\<close>

text \<open>
  The slices handed to \<^verbatim>\<open>Promise.allSettled\<close>, the awaited timeouts, the load attempts
  (the calls of \<^verbatim>\<open>prefetchQuery\<close>) and the \<^verbatim>\<open>console.debug\<close> lines of a trace, each
  in the order of the trace. \<open>skeleton\<close> keeps the slices and the timeouts only.
\<close>

fun batchesIn :: "event list \<Rightarrow> VaultData list list" where
  "batchesIn [] = []"
| "batchesIn (AllSettled b # tr) = b # batchesIn tr"
| "batchesIn (_ # tr) = batchesIn tr"

fun delaysIn :: "event list \<Rightarrow> nat list" where
  "delaysIn [] = []"
| "delaysIn (SetTimeout d # tr) = d # delaysIn tr"
| "delaysIn (_ # tr) = delaysIn tr"

fun structural :: "event \<Rightarrow> bool" where
  "structural (AllSettled b) = True"
| "structural (SetTimeout d) = True"
| "structural _ = False"

definition skeleton :: "event list \<Rightarrow> event list" where
  "skeleton tr = filter structural tr"

fun attemptsIn :: "event list \<Rightarrow> (queryKey \<times> string) list" where
  "attemptsIn [] = []"
| "attemptsIn (PrefetchQuery k u # tr) = (k, u) # attemptsIn tr"
| "attemptsIn (_ # tr) = attemptsIn tr"

fun debugsIn :: "event list \<Rightarrow> (string \<times> error) list" where
  "debugsIn [] = []"
| "debugsIn (ConsoleDebug m err # tr) = (m, err) # debugsIn tr"
| "debugsIn (_ # tr) = debugsIn tr"

text \<open>
  The cache key of the \<^verbatim>\<open>preloadImage\<close> call that issued a load attempt, read off the
  query key of the attempt: \<^verbatim>\<open>`${chainId}-${address.toLowerCase()}`\<close>.
\<close>

fun cacheKeyOfQuery :: "queryKey \<Rightarrow> string" where
  "cacheKeyOfQuery (ns, cid, a) = number_toString cid @ ''-'' @ a"

definition attemptKeys :: "event list \<Rightarrow> string list" where
  "attemptKeys tr = map (\<lambda>(k, u). cacheKeyOfQuery k) (attemptsIn tr)"

text \<open>The load attempts of a trace whose image fails to load.\<close>

definition failedAttempts :: "env \<Rightarrow> event list \<Rightarrow> (queryKey \<times> string) list" where
  "failedAttempts e tr = filter (\<lambda>(k, u). \<not> imageLoads e u) (attemptsIn tr)"

text \<open>What was added to the trace between two states.\<close>

definition emitted :: "state \<Rightarrow> state \<Rightarrow> event list" where
  "emitted s s' = drop (length (trace s)) (trace s')"

subsection \<open>Chunks, separators and relations between states\<close>

text \<open>
  The consecutive slices of \<open>batchSize\<close> elements of a list, from index \<open>i\<close> on, and
  a list with a separator put between every two of its elements.
\<close>

definition chunksFrom :: "nat \<Rightarrow> 'a list \<Rightarrow> 'a list list" where
  "chunksFrom i xs =
     map (\<lambda>j. slice xs (i + batchSize * j) (i + batchSize * j + batchSize))
       [0 ..< (length xs - i + (batchSize - 1)) div batchSize]"

fun interleaved :: "'a \<Rightarrow> 'a list \<Rightarrow> 'a list" where
  "interleaved d [] = []"
| "interleaved d [x] = [x]"
| "interleaved d (x # y # ys) = x # d # interleaved d (y # ys)"

text \<open>The suspended call that \<^verbatim>\<open>preloadImage\<close> leaves behind for a vault.\<close>

definition pendingOf :: "env \<Rightarrow> VaultData \<Rightarrow> pending" where
  "pendingOf e v =
     \<lparr>p_address = address (asset v),
      p_queryKey = queryKeyOf (chainId v) (address (asset v)),
      p_imageUrl = getSvgAsset e (chainId v) (address (asset v))\<rparr>"

text \<open>
  Relations between the state before and the state after some steps of the hook. The
  trace is only added to. The load attempts that were added have pairwise different cache
  keys, none of them in the set before and all of them in the set after. The array and the
  timer are as before, the set has only grown, and where the cache differs it holds the
  image URL of a vault of the array under that vault's query key.
\<close>

definition extends :: "state \<Rightarrow> state \<Rightarrow> bool" where
  "extends s s' = (\<exists>evs. trace s' = trace s @ evs)"

definition fresh :: "state \<Rightarrow> state \<Rightarrow> bool" where
  "fresh s s' =
     (\<exists>ks. attemptKeys (trace s') = attemptKeys (trace s) @ ks \<and> distinct ks \<and>
           set ks \<inter> preloadedSet s = {} \<and> preloadedSet s' = preloadedSet s \<union> set ks)"

definition populates :: "env \<Rightarrow> state \<Rightarrow> state \<Rightarrow> bool" where
  "populates e s s' =
     (vaults s' = vaults s \<and> timer s' = timer s \<and> preloadedSet s \<subseteq> preloadedSet s' \<and>
      (\<forall>k. cache s' k = cache s k \<or>
         (\<exists>v \<in> set (vaults s). k = p_queryKey (pendingOf e v) \<and>
            cache s' k = Some (p_imageUrl (pendingOf e v)))))"

subsection \<open>Examples\<close>

text \<open>
  Vault references, an environment in which every image loads or every image fails,
  with the library's query client and all its data fresh, and a cache that holds one
  value.
\<close>

definition vaultRef :: "int \<Rightarrow> string \<Rightarrow> VaultData" where
  "vaultRef c a = \<lparr>chainId = c, asset = \<lparr>address = a\<rparr>\<rparr>"

definition plainEnv :: "bool \<Rightarrow> env" where
  "plainEnv ok = \<lparr>getSvgAsset = (\<lambda>c a. ''/logos/'' @ number_toString c @ ''/'' @ a @ ''.svg''),
                  imageLoads = (\<lambda>u. ok), latency = (\<lambda>u. length u),
                  prefetchQuery = libraryClient (\<lambda>k. False)\<rparr>"

definition twentyVaults :: "VaultData list" where
  "twentyVaults = map (\<lambda>i. vaultRef 1 (nat_toString i)) [0 ..< 20]"

definition threeRefs :: "VaultData list" where
  "threeRefs = [vaultRef 1 ''0xAbC'', vaultRef 1 ''0xabc'', vaultRef 10 ''0xAbC'']"

definition cacheWith :: "string \<Rightarrow> queryCache" where
  "cacheWith d = [queryKeyOf 1 ''0xAbC'' \<mapsto> d]"

text \<open>
  A component that lives through two runs: mounted with one vault whose image fails to
  load, and, after the first run, rendered with another array that names the same token
  in another letter case and one more token.
\<close>

definition afterFirstRun :: state where
  "afterFirstRun = elapse (plainEnv False) 100 (mount [vaultRef 1 ''0xAbC''] Map.empty [])"

definition secondRender :: state where
  "secondRender = rerender [vaultRef 1 ''0xabc'', vaultRef 10 ''0xAbC''] afterFirstRun"

definition afterSecondRun :: state where
  "afterSecondRun = elapse (plainEnv True) 100 secondRender"

text \<open>
  A page whose cache holds the empty string under the query key of a token: a component
  mounted with two spellings of that token in one array, and the same component after its
  first run, rendered with an array of the one token.
\<close>

definition twoSpellings :: state where
  "twoSpellings = mount [vaultRef 1 ''0xAbC'', vaultRef 1 ''0xabc''] (cacheWith '''') []"

definition renderedAgain :: state where
  "renderedAgain = rerender [vaultRef 1 ''0xabc''] (elapse (plainEnv True) 100 twoSpellings)"

section \<open>Properties\<close>

subsection \<open>Lifting a relation between states from the steps to a run\<close>

text \<open>
  A run is a sequence of steps: first parts and second parts of \<^verbatim>\<open>preloadImage\<close>
  calls, and events appended to the trace. A reflexive and transitive relation that every
  step respects holds between the state before and the state after a run.
\<close>

lemma issueAll_lift:
  assumes refl: "\<And>s. R s s" and trans: "\<And>a b c. R a b \<Longrightarrow> R b c \<Longrightarrow> R a c"
    and start: "\<And>c a s p s'. preloadImage_start e c a s = (p, s') \<Longrightarrow> R s s'"
  shows "issueAll e vs s = (ps, s') \<Longrightarrow> R s s'"
proof (induction vs arbitrary: s ps)
  case Nil
  then show ?case by (simp add: refl)
next
  case (Cons v vs)
  obtain p s1 where a: "preloadImage_start e (chainId v) (address (asset v)) s = (p, s1)"
    by (cases "preloadImage_start e (chainId v) (address (asset v)) s")
  obtain ps' s2 where b: "issueAll e vs s1 = (ps', s2)"
    by (cases "issueAll e vs s1")
  from Cons.prems a b have "s2 = s'" by simp
  with start [OF a] Cons.IH [of s1 ps'] b show ?case by (blast intro: trans)
qed

lemma settleAll_lift:
  assumes refl: "\<And>s. R s s" and trans: "\<And>a b c. R a b \<Longrightarrow> R b c \<Longrightarrow> R a c"
    and settle: "\<And>p s r s'. preloadImage_settle e p s = (r, s') \<Longrightarrow> R s s'"
  shows "settleAll e ps s = (rs, s') \<Longrightarrow> R s s'"
proof (induction ps arbitrary: s rs)
  case Nil
  then show ?case by (simp add: refl)
next
  case (Cons p ps)
  obtain r s1 where a: "preloadImage_settle e p s = (r, s1)"
    by (cases "preloadImage_settle e p s")
  obtain rs' s2 where b: "settleAll e ps s1 = (rs', s2)"
    by (cases "settleAll e ps s1")
  from Cons.prems a b have "s2 = s'" by simp
  with settle [OF a] Cons.IH [of s1 rs'] b show ?case by (blast intro: trans)
qed

lemma allSettledBatch_lift:
  assumes refl: "\<And>s. R s s" and trans: "\<And>a b c. R a b \<Longrightarrow> R b c \<Longrightarrow> R a c"
    and start: "\<And>c a s p s'. preloadImage_start e c a s = (p, s') \<Longrightarrow> R s s'"
    and settle: "\<And>p s r s'. preloadImage_settle e p s = (r, s') \<Longrightarrow> R s s'"
    and ev: "\<And>s. R s (s\<lparr>trace := trace s @ [AllSettled b]\<rparr>)"
    and run: "allSettledBatch e b s = (r, s')"
  shows "R s s'"
proof -
  obtain ps s1 where a: "issueAll e b s = (ps, s1)"
    by (cases "issueAll e b s")
  let ?s0 = "s1\<lparr>trace := trace s1 @ [AllSettled b]\<rparr>"
  obtain rs s2 where c: "settleAll e (completionOrder e (List.map_filter id ps)) ?s0 = (rs, s2)"
    by (cases "settleAll e (completionOrder e (List.map_filter id ps)) ?s0")
  from run a c have "s' = s2" by (simp add: allSettledBatch_def)
  moreover have "R s s1" using issueAll_lift [of R, OF refl trans start a] .
  moreover have "R ?s0 s2" using settleAll_lift [of R, OF refl trans settle c] .
  ultimately show ?thesis using ev [of s1] by (blast intro: trans)
qed

lemma allSettledBatch_Inr: "allSettledBatch e b s = (r, s') \<Longrightarrow> \<exists>x. r = Inr x"
  by (auto simp: allSettledBatch_def Promise_allSettled_def split: prod.splits)

lemma loopBody_lift:
  assumes trans: "\<And>a b c. R a b \<Longrightarrow> R b c \<Longrightarrow> R a c"
    and batch: "\<And>s r s'. allSettledBatch e (slice (vaults s) i (i + batchSize)) s = (r, s') \<Longrightarrow> R s s'"
    and ev: "\<And>s. R s (s\<lparr>trace := trace s @ [SetTimeout delay]\<rparr>)"
    and run: "loopBody e i s = (r, s')"
  shows "R s s'"
proof -
  obtain x s1 where a: "allSettledBatch e (slice (vaults s) i (i + batchSize)) s = (x, s1)"
    by (cases "allSettledBatch e (slice (vaults s) i (i + batchSize)) s")
  from allSettledBatch_Inr [OF a] obtain y where "x = Inr y" ..
  with run a have "s' = s1 \<or> s' = s1\<lparr>trace := trace s1 @ [SetTimeout delay]\<rparr>"
    by (auto simp: loopBody_def Let_def split: if_splits)
  with batch [OF a] ev [of s1] show ?thesis by (blast intro: trans)
qed

lemma preloadLoop_lift:
  assumes refl: "\<And>s. R s s" and trans: "\<And>a b c. R a b \<Longrightarrow> R b c \<Longrightarrow> R a c"
    and body: "\<And>i s r s'. loopBody e i s = (r, s') \<Longrightarrow> R s s'"
  shows "preloadLoop e i s = (r, s') \<Longrightarrow> R s s'"
  using body
proof (induction e i s rule: preloadLoop.induct)
  case (1 e i s)
  note run = "1.prems"(1) and body = "1.prems"(2)
  show ?case
  proof (cases "i < length (vaults s)")
    case False
    with run show ?thesis by (simp add: preloadLoop.simps refl)
  next
    case True
    obtain x s1 where a: "loopBody e i s = (x, s1)" by (cases "loopBody e i s")
    show ?thesis
    proof (cases x)
      case (Inl err)
      with run True a have "s' = s1" by (simp add: preloadLoop.simps)
      with body [OF a] show ?thesis by simp
    next
      case (Inr u)
      with run True a have b: "preloadLoop e (i + batchSize) s1 = (r, s')"
        by (simp add: preloadLoop.simps)
      have "R s1 s'" using "1.IH" [OF True a [symmetric] Inr b body] .
      with body [OF a] show ?thesis by (blast intro: trans)
    qed
  qed
qed

lemma preloadInBatches_lift:
  assumes refl: "\<And>s. R s s" and trans: "\<And>a b c. R a b \<Longrightarrow> R b c \<Longrightarrow> R a c"
    and batch: "\<And>i s r s'. allSettledBatch e (slice (vaults s) i (i + batchSize)) s = (r, s') \<Longrightarrow> R s s'"
    and ev: "\<And>s x. (\<exists>m. x = ConsoleLog m) \<or> x = SetTimeout delay \<Longrightarrow> R s (s\<lparr>trace := trace s @ [x]\<rparr>)"
    and run: "preloadInBatches e s = (r, s')"
  shows "R s s'"
proof -
  let ?s0 = "s\<lparr>trace := trace s @
                  [ConsoleLog (''Starting to preload '' @ nat_toString (length (vaults s)) @
                     '' token images in batches of '' @ nat_toString batchSize)]\<rparr>"
  obtain x s1 where a: "preloadLoop e 0 ?s0 = (x, s1)" by (cases "preloadLoop e 0 ?s0")
  have body: "\<And>i s r s'. loopBody e i s = (r, s') \<Longrightarrow> R s s'"
    by (rule loopBody_lift [of R, OF trans batch]) (simp_all add: ev)
  have "R ?s0 s1" using preloadLoop_lift [of R, OF refl trans body a] .
  moreover have "R s ?s0" by (rule ev) simp
  moreover from run a have "s' = s1 \<or> s' = s1\<lparr>trace := trace s1 @ [ConsoleLog ''Finished preloading token images'']\<rparr>"
    by (auto simp: preloadInBatches_def Let_def split: sum.splits)
  moreover have "R s1 (s1\<lparr>trace := trace s1 @ [ConsoleLog ''Finished preloading token images'']\<rparr>)"
    by (rule ev) simp
  ultimately show ?thesis by (blast intro: trans)
qed

lemma run_lift:
  assumes refl: "\<And>s. R s s" and trans: "\<And>a b c. R a b \<Longrightarrow> R b c \<Longrightarrow> R a c"
    and start: "\<And>c a s p s'. preloadImage_start e c a s = (p, s') \<Longrightarrow> R s s'"
    and settle: "\<And>p s r s'. preloadImage_settle e p s = (r, s') \<Longrightarrow> R s s'"
    and ev: "\<And>s x. (\<exists>m. x = ConsoleLog m) \<or> (\<exists>b. x = AllSettled b) \<or> x = SetTimeout delay
               \<Longrightarrow> R s (s\<lparr>trace := trace s @ [x]\<rparr>)"
    and run: "preloadInBatches e s = (r, s')"
  shows "R s s'"
proof -
  have batch: "R s s'" if a: "allSettledBatch e b s = (r, s')" for b s r s'
  proof -
    have "R s (s\<lparr>trace := trace s @ [AllSettled b]\<rparr>)" for s
      by (rule ev) simp
    then show ?thesis
      using allSettledBatch_lift [where R = R and e = e and b = b, OF refl trans start settle _ a]
      by simp
  qed
  have quiet: "R s (s\<lparr>trace := trace s @ [x]\<rparr>)"
    if "(\<exists>m. x = ConsoleLog m) \<or> x = SetTimeout delay" for s x
    using that by (intro ev) auto
  show ?thesis
    using preloadInBatches_lift [where R = R and e = e, OF refl trans batch quiet run] .
qed

subsection \<open>Slices and timeouts\<close>

lemma chunksFrom_done: "length xs \<le> i \<Longrightarrow> chunksFrom i xs = []"
  by (simp add: chunksFrom_def batchSize_def)

lemma ceil_step:
  assumes "i < (n::nat)"
  shows "(n - i + 14) div 15 = Suc ((n - (i + 15) + 14) div 15)"
proof (cases "n - i < 15")
  case True
  with assms have "(n - i + 14) div 15 = 1" by simp
  moreover from True have "n - (i + 15) = 0" by simp
  ultimately show ?thesis by simp
next
  case False
  then obtain m where m: "n - i = m + 15"
    by (metis add.commute le_add_diff_inverse not_less)
  then have "n - (i + 15) = m" by simp
  moreover have "(m + 15 + 14) div 15 = Suc ((m + 14) div 15)" by simp
  ultimately show ?thesis by (simp only: m)
qed

lemma upt_Suc_shift: "[0 ..< Suc k] = 0 # map Suc [0 ..< k]"
  by (simp only: upt_conv_Cons zero_less_Suc map_Suc_upt)

lemma chunksFrom_step:
  assumes "i < length xs"
  shows "chunksFrom i xs = slice xs i (i + batchSize) # chunksFrom (i + batchSize) xs"
proof -
  have n: "(length xs - i + (batchSize - 1)) div batchSize
      = Suc ((length xs - (i + batchSize) + (batchSize - 1)) div batchSize)"
    using ceil_step [OF assms] by (simp add: batchSize_def)
  show ?thesis
    unfolding chunksFrom_def n upt_Suc_shift by (simp add: o_def add.assoc del: upt_Suc)
qed

lemma chunksFrom_empty_iff: "chunksFrom i xs = [] \<longleftrightarrow> length xs \<le> i"
  using chunksFrom_step [of i xs] chunksFrom_done [of xs i] by (cases "i < length xs") auto

lemma skeleton_append [simp]: "skeleton (xs @ ys) = skeleton xs @ skeleton ys"
  by (simp add: skeleton_def)

lemma batchesIn_append [simp]: "batchesIn (xs @ ys) = batchesIn xs @ batchesIn ys"
  by (induction xs rule: batchesIn.induct) simp_all

lemma skeleton_preloadImage_start:
  "preloadImage_start e c a s = (p, s') \<Longrightarrow> skeleton (trace s') = skeleton (trace s)"
  by (auto simp: preloadImage_start_def Let_def skeleton_def split: if_splits)

lemma skeleton_preloadImage_settle:
  "preloadImage_settle e p s = (r, s') \<Longrightarrow> skeleton (trace s') = skeleton (trace s)"
  by (auto simp: preloadImage_settle_def skeleton_def split: sum.splits prod.splits)

lemma skeleton_allSettledBatch:
  assumes "allSettledBatch e b s = (r, s')"
  shows "skeleton (trace s') = skeleton (trace s) @ [AllSettled b]"
proof -
  let ?R = "\<lambda>s s'. skeleton (trace s') = skeleton (trace s)"
  obtain ps s1 where a: "issueAll e b s = (ps, s1)"
    by (cases "issueAll e b s")
  let ?s0 = "s1\<lparr>trace := trace s1 @ [AllSettled b]\<rparr>"
  obtain rs s2 where c: "settleAll e (completionOrder e (List.map_filter id ps)) ?s0 = (rs, s2)"
    by (cases "settleAll e (completionOrder e (List.map_filter id ps)) ?s0")
  from assms a c have "s' = s2" by (simp add: allSettledBatch_def)
  moreover have "skeleton (trace s1) = skeleton (trace s)"
    by (rule issueAll_lift [of ?R, OF _ _ _ a]) (simp_all add: skeleton_preloadImage_start)
  moreover have "skeleton (trace s2) = skeleton (trace ?s0)"
    by (rule settleAll_lift [of ?R, OF _ _ _ c]) (simp_all add: skeleton_preloadImage_settle)
  ultimately show ?thesis by (simp add: skeleton_def)
qed

lemma skeleton_loopBody:
  assumes "loopBody e i s = (r, s')"
  shows "skeleton (trace s') = skeleton (trace s) @
           AllSettled (slice (vaults s) i (i + batchSize)) #
           (if i + batchSize < length (vaults s) then [SetTimeout delay] else [])"
proof -
  obtain x s1 where a: "allSettledBatch e (slice (vaults s) i (i + batchSize)) s = (x, s1)"
    by (cases "allSettledBatch e (slice (vaults s) i (i + batchSize)) s")
  from allSettledBatch_Inr [OF a] obtain y where y: "x = Inr y" ..
  have v: "vaults s1 = vaults s" using vaults_allSettledBatch [OF a] .
  from assms a y v
  have "s' = (if i + batchSize < length (vaults s) then s1\<lparr>trace := trace s1 @ [SetTimeout delay]\<rparr> else s1)"
    by (simp add: loopBody_def Let_def)
  with skeleton_allSettledBatch [OF a] show ?thesis by (simp add: skeleton_def)
qed

lemma interleaved_Cons:
  "interleaved d (x # xs) = x # (if xs = [] then [] else d # interleaved d xs)"
  by (cases xs) simp_all

lemma loopBody_Inr: "loopBody e i s = (r, s') \<Longrightarrow> r = Inr ()"
  by (auto simp: loopBody_def Let_def split: prod.splits sum.splits dest: allSettledBatch_Inr)

lemma preloadLoop_Inr: "preloadLoop e i s = (r, s') \<Longrightarrow> r = Inr ()"
proof (induction e i s rule: preloadLoop.induct)
  case (1 e i s)
  show ?case
  proof (cases "i < length (vaults s)")
    case False
    with "1.prems" show ?thesis by (simp add: preloadLoop.simps)
  next
    case True
    obtain x s1 where a: "loopBody e i s = (x, s1)" by (cases "loopBody e i s")
    have x: "x = Inr ()" using loopBody_Inr [OF a] .
    with "1.prems" True a have b: "preloadLoop e (i + batchSize) s1 = (r, s')"
      by (simp add: preloadLoop.simps)
    show ?thesis using "1.IH" [OF True a [symmetric] x b] .
  qed
qed

lemma preloadInBatches_Inr:
  assumes "preloadInBatches e s = (r, s')"
  shows "r = Inr ()"
proof -
  let ?s0 = "s\<lparr>trace := trace s @
                  [ConsoleLog (''Starting to preload '' @ nat_toString (length (vaults s)) @
                     '' token images in batches of '' @ nat_toString batchSize)]\<rparr>"
  obtain x s1 where a: "preloadLoop e 0 ?s0 = (x, s1)" by (cases "preloadLoop e 0 ?s0")
  have "x = Inr ()" using preloadLoop_Inr [OF a] .
  with assms a show ?thesis by (simp add: preloadInBatches_def Let_def)
qed

lemma skeleton_preloadLoop:
  "preloadLoop e i s = (r, s') \<Longrightarrow>
   skeleton (trace s') =
     skeleton (trace s) @ interleaved (SetTimeout delay) (map AllSettled (chunksFrom i (vaults s)))"
proof (induction e i s rule: preloadLoop.induct)
  case (1 e i s)
  show ?case
  proof (cases "i < length (vaults s)")
    case False
    with "1.prems" show ?thesis by (simp add: preloadLoop.simps chunksFrom_done)
  next
    case True
    obtain x s1 where a: "loopBody e i s = (x, s1)" by (cases "loopBody e i s")
    have x: "x = Inr ()" using loopBody_Inr [OF a] .
    have v: "vaults s1 = vaults s" using vaults_loopBody [OF a] .
    from "1.prems" True a x have b: "preloadLoop e (i + batchSize) s1 = (r, s')"
      by (simp add: preloadLoop.simps)
    have rest: "skeleton (trace s') = skeleton (trace s1) @
        interleaved (SetTimeout delay) (map AllSettled (chunksFrom (i + batchSize) (vaults s)))"
      using "1.IH" [OF True a [symmetric] x b] by (simp add: v)
    show ?thesis
    proof (cases "i + batchSize < length (vaults s)")
      case True
      then have "chunksFrom (i + batchSize) (vaults s) \<noteq> []"
        by (simp add: chunksFrom_empty_iff)
      with True show ?thesis
        unfolding rest skeleton_loopBody [OF a] chunksFrom_step [OF \<open>i < length (vaults s)\<close>]
        by (simp add: interleaved_Cons)
    next
      case False
      then have "chunksFrom (i + batchSize) (vaults s) = []"
        by (simp add: chunksFrom_done)
      with False show ?thesis
        unfolding rest skeleton_loopBody [OF a] chunksFrom_step [OF \<open>i < length (vaults s)\<close>]
        by simp
    qed
  qed
qed

lemma extends_refl: "extends s s"
  by (simp add: extends_def)

lemma extends_trans: "extends a b \<Longrightarrow> extends b c \<Longrightarrow> extends a c"
  by (auto simp: extends_def)

lemma extends_event: "extends s (s\<lparr>trace := trace s @ [x]\<rparr>)"
  by (simp add: extends_def)

lemma extends_preloadImage_start: "preloadImage_start e c a s = (p, s') \<Longrightarrow> extends s s'"
  by (auto simp: preloadImage_start_def Let_def extends_def split: if_splits)

lemma extends_preloadImage_settle: "preloadImage_settle e p s = (r, s') \<Longrightarrow> extends s s'"
  by (auto simp: preloadImage_settle_def extends_def split: sum.splits prod.splits)

lemma extends_preloadInBatches: "preloadInBatches e s = (r, s') \<Longrightarrow> extends s s'"
  by (rule run_lift [where R = extends and e = e])
    (auto intro: extends_refl extends_trans extends_event
      extends_preloadImage_start extends_preloadImage_settle)

lemma trace_emitted: "extends s s' \<Longrightarrow> trace s' = trace s @ emitted s s'"
  by (auto simp: extends_def emitted_def)

lemma batchesIn_interleaved:
  "batchesIn (interleaved (SetTimeout d) (map AllSettled bs)) = bs"
proof (induction bs)
  case Nil
  show ?case by simp
next
  case (Cons b bs)
  then show ?case by (simp add: interleaved_Cons)
qed

lemma batchesIn_skeleton: "batchesIn (skeleton tr) = batchesIn tr"
  unfolding skeleton_def by (induction tr rule: batchesIn.induct) simp_all

lemma skeleton_preloadInBatches:
  assumes "preloadInBatches e s = (r, s')"
  shows "skeleton (trace s') =
     skeleton (trace s) @ interleaved (SetTimeout delay) (map AllSettled (chunksFrom 0 (vaults s)))"
proof -
  let ?s0 = "s\<lparr>trace := trace s @
                  [ConsoleLog (''Starting to preload '' @ nat_toString (length (vaults s)) @
                     '' token images in batches of '' @ nat_toString batchSize)]\<rparr>"
  obtain x s1 where a: "preloadLoop e 0 ?s0 = (x, s1)" by (cases "preloadLoop e 0 ?s0")
  have "x = Inr ()" using preloadLoop_Inr [OF a] .
  with assms a have "s' = s1\<lparr>trace := trace s1 @ [ConsoleLog ''Finished preloading token images'']\<rparr>"
    by (simp add: preloadInBatches_def Let_def)
  with skeleton_preloadLoop [OF a] show ?thesis by (simp add: skeleton_def)
qed

lemma skeleton_emitted:
  assumes "preloadInBatches e s = (r, s')"
  shows "skeleton (emitted s s') =
     interleaved (SetTimeout delay) (map AllSettled (chunksFrom 0 (vaults s)))"
proof -
  have "trace s' = trace s @ emitted s s'"
    using extends_preloadInBatches [OF assms] by (rule trace_emitted)
  then have "skeleton (trace s') = skeleton (trace s) @ skeleton (emitted s s')"
    by simp
  with skeleton_preloadInBatches [OF assms] show ?thesis by simp
qed

lemma batchesIn_emitted:
  assumes "preloadInBatches e s = (r, s')"
  shows "batchesIn (emitted s s') = chunksFrom 0 (vaults s)"
proof -
  have "batchesIn (emitted s s') = batchesIn (skeleton (emitted s s'))"
    by (simp only: batchesIn_skeleton)
  then show ?thesis
    by (simp only: skeleton_emitted [OF assms] batchesIn_interleaved)
qed

lemma length_chunksFrom: "length (chunksFrom 0 xs) = (length xs + 14) div 15"
  by (simp add: chunksFrom_def batchSize_def)

lemma take_drop_nth:
  "take m (drop i xs) = map (\<lambda>k. xs ! k) [i ..< min (i + m) (length xs)]"
proof (rule nth_equalityI)
  show "length (take m (drop i xs)) = length (map (\<lambda>k. xs ! k) [i ..< min (i + m) (length xs)])"
    by (auto simp: min_def)
next
  fix j
  assume "j < length (take m (drop i xs))"
  then have "j < m" and "i + j < length xs" by auto
  then show "take m (drop i xs) ! j = map (\<lambda>k. xs ! k) [i ..< min (i + m) (length xs)] ! j"
    by simp
qed

lemma nth_chunksFrom:
  assumes "j < length (chunksFrom 0 xs)"
  shows "chunksFrom 0 xs ! j = map (\<lambda>k. xs ! k) [15 * j ..< min (15 * (j + 1)) (length xs)]"
proof -
  from assms have "chunksFrom 0 xs ! j = slice xs (15 * j) (15 * j + 15)"
    by (simp add: chunksFrom_def batchSize_def)
  also have "\<dots> = take 15 (drop (15 * j) xs)" by (simp add: slice_def)
  also have "\<dots> = map (\<lambda>k. xs ! k) [15 * j ..< min (15 * j + 15) (length xs)]"
    by (rule take_drop_nth)
  finally show ?thesis by (simp add: add.commute)
qed

lemma concat_chunksFrom: "concat (chunksFrom i xs) = drop i xs"
proof (induction "length xs - i" arbitrary: i rule: less_induct)
  case less
  show ?case
  proof (cases "i < length xs")
    case False
    then show ?thesis by (simp add: chunksFrom_done)
  next
    case True
    then have "length xs - (i + batchSize) < length xs - i" by (simp add: batchSize_def)
    then have "concat (chunksFrom (i + batchSize) xs) = drop (i + batchSize) xs"
      by (rule less)
    moreover have "drop (i + batchSize) xs = drop batchSize (drop i xs)"
      by (simp add: add.commute)
    ultimately show ?thesis
      by (simp add: chunksFrom_step [OF True] slice_def del: drop_drop)
  qed
qed

lemma delaysIn_skeleton: "delaysIn (skeleton tr) = delaysIn tr"
  unfolding skeleton_def by (induction tr rule: delaysIn.induct) simp_all

lemma delaysIn_interleaved:
  "delaysIn (interleaved (SetTimeout d) (map AllSettled bs)) = replicate (length bs - 1) d"
proof (induction bs)
  case Nil
  show ?case by simp
next
  case (Cons b bs)
  then show ?case by (cases bs) (simp_all add: interleaved_Cons)
qed

text \<open>
  C1. For an array of \<open>n\<close> vaults a run calls \<^verbatim>\<open>Promise.allSettled\<close> on exactly
  \<open>\<lceil>n / 15\<rceil>\<close> slices. In the order of the calls, slice \<open>j\<close> holds the elements
  \<open>15 j\<close> to \<open>min (15 (j + 1)) n - 1\<close> of the array, in the order of the array; every
  slice but the last has 15 elements, no slice is empty or longer than 15, and the slices
  put end to end are the array.
\<close>

theorem batches_of_run:
  "let bs = batchesIn (emitted s (snd (preloadInBatches e s))); n = length (vaults s)
   in length bs = (n + 14) div 15 \<and>
      (\<forall>j<length bs. bs ! j = map (\<lambda>k. vaults s ! k) [15 * j ..< min (15 * (j + 1)) n]) \<and>
      (\<forall>j. Suc j < length bs \<longrightarrow> length (bs ! j) = 15) \<and>
      (\<forall>b \<in> set bs. 0 < length b \<and> length b \<le> 15) \<and>
      concat bs = vaults s"
proof -
  obtain r s' where run: "preloadInBatches e s = (r, s')"
    by (cases "preloadInBatches e s")
  let ?n = "length (vaults s)"
  let ?bs = "chunksFrom 0 (vaults s)"
  have bs: "batchesIn (emitted s (snd (preloadInBatches e s))) = ?bs"
    using batchesIn_emitted [OF run] by (simp add: run)
  have len: "length ?bs = (?n + 14) div 15"
    by (rule length_chunksFrom)
  have nth: "?bs ! j = map (\<lambda>k. vaults s ! k) [15 * j ..< min (15 * (j + 1)) ?n]"
    if "j < length ?bs" for j
    using that by (rule nth_chunksFrom)
  have full: "length (?bs ! j) = 15" if "Suc j < length ?bs" for j
  proof -
    from that have "15 * (j + 1) \<le> ?n" by (simp add: len)
    moreover from that have "j < length ?bs" by simp
    ultimately show ?thesis by (simp add: nth)
  qed
  have size: "0 < length b \<and> length b \<le> 15" if "b \<in> set ?bs" for b
  proof -
    from that obtain j where j: "j < length ?bs" and b: "b = ?bs ! j"
      by (auto simp: in_set_conv_nth)
    from j have "15 * j < ?n" by (simp add: len)
    with j b show ?thesis by (simp add: nth)
  qed
  have all: "concat ?bs = vaults s"
    by (simp add: concat_chunksFrom)
  show ?thesis
    unfolding Let_def bs using len nth full size all by blast
qed

theorem batches_of_run_witness:
  "length (batchesIn (emitted (mount twentyVaults Map.empty [])
      (snd (preloadInBatches (plainEnv True) (mount twentyVaults Map.empty []))))) = 2 \<and>
   batchesIn (emitted (mount twentyVaults Map.empty [])
      (snd (preloadInBatches (plainEnv True) (mount twentyVaults Map.empty [])))) ! 0
     = take 15 twentyVaults \<and>
   batchesIn (emitted (mount twentyVaults Map.empty [])
      (snd (preloadInBatches (plainEnv True) (mount twentyVaults Map.empty [])))) ! 1
     = drop 15 twentyVaults"
proof -
  let ?s = "mount twentyVaults Map.empty []"
  let ?bs = "batchesIn (emitted ?s (snd (preloadInBatches (plainEnv True) ?s)))"
  have v: "vaults ?s = twentyVaults"
    by (simp add: mount_def effect_def)
  have n: "length twentyVaults = 20"
    by (simp add: twentyVaults_def)
  from batches_of_run [of ?s "plainEnv True"]
  have len: "length ?bs = 2"
    and nth: "\<forall>j<length ?bs. ?bs ! j = map (\<lambda>k. twentyVaults ! k) [15 * j ..< min (15 * (j + 1)) 20]"
    by (simp_all add: Let_def v n)
  from nth len have "?bs ! 0 = map (\<lambda>k. twentyVaults ! k) [0 ..< 15]"
    and "?bs ! 1 = map (\<lambda>k. twentyVaults ! k) [15 ..< 20]"
    by simp_all
  moreover have "map (\<lambda>k. twentyVaults ! k) [0 ..< 15] = take 15 twentyVaults"
    using take_drop_nth [of 15 0 twentyVaults] by (simp add: n)
  moreover have "map (\<lambda>k. twentyVaults ! k) [15 ..< 20] = drop 15 twentyVaults"
    using take_drop_nth [of 5 15 twentyVaults] by (simp add: n)
  ultimately show ?thesis using len by simp
qed

lemma ceil_pos: "0 < (n::nat) \<Longrightarrow> 0 < (n + 14) div 15"
  by arith

text \<open>
  C2. In a run the awaited timeouts are all of 150 ms and stand exactly between
  consecutive calls of \<^verbatim>\<open>Promise.allSettled\<close>: one between every two slices that follow
  each other, none before the first slice and none after the last. For \<open>n\<close> vaults
  that makes \<open>\<lceil>n / 15\<rceil> - 1\<close> timeouts when \<open>n > 0\<close>, and none when \<open>n \<le> 15\<close>.
\<close>

theorem delays_of_run:
  "let ev = emitted s (snd (preloadInBatches e s)); n = length (vaults s)
   in skeleton ev = interleaved (SetTimeout 150) (map AllSettled (batchesIn ev)) \<and>
      delaysIn ev = replicate ((n + 14) div 15 - 1) 150 \<and>
      (0 < n \<longrightarrow> length (delaysIn ev) + 1 = (n + 14) div 15) \<and>
      (n \<le> 15 \<longrightarrow> delaysIn ev = [])"
proof -
  obtain r s' where run: "preloadInBatches e s = (r, s')"
    by (cases "preloadInBatches e s")
  let ?n = "length (vaults s)"
  let ?ev = "emitted s s'"
  have sk: "skeleton ?ev = interleaved (SetTimeout 150) (map AllSettled (chunksFrom 0 (vaults s)))"
    using skeleton_emitted [OF run] by (simp add: delay_def)
  have bs: "batchesIn ?ev = chunksFrom 0 (vaults s)"
    by (rule batchesIn_emitted [OF run])
  have "delaysIn ?ev = delaysIn (skeleton ?ev)"
    by (simp only: delaysIn_skeleton)
  then have ds: "delaysIn ?ev = replicate ((?n + 14) div 15 - 1) 150"
    by (simp only: sk delaysIn_interleaved length_chunksFrom)
  have pos: "length (delaysIn ?ev) + 1 = (?n + 14) div 15" if "0 < ?n"
  proof -
    from that have "0 < (?n + 14) div 15" by (rule ceil_pos)
    then show ?thesis by (simp add: ds)
  qed
  have small: "delaysIn ?ev = []" if "?n \<le> 15"
  proof -
    from that have "(?n + 14) div 15 \<le> 1" by simp
    then show ?thesis by (simp add: ds)
  qed
  show ?thesis
    unfolding Let_def using sk bs ds pos small by (simp add: run)
qed

theorem delays_of_run_witness:
  "length (delaysIn (emitted (mount twentyVaults Map.empty [])
      (snd (preloadInBatches (plainEnv True) (mount twentyVaults Map.empty []))))) + 1 = 2 \<and>
   delaysIn (emitted (mount twentyVaults Map.empty [])
      (snd (preloadInBatches (plainEnv True) (mount twentyVaults Map.empty [])))) = [150] \<and>
   delaysIn (emitted (mount (take 15 twentyVaults) Map.empty [])
      (snd (preloadInBatches (plainEnv True) (mount (take 15 twentyVaults) Map.empty [])))) = []"
proof -
  let ?s = "mount twentyVaults Map.empty []"
  let ?t = "mount (take 15 twentyVaults) Map.empty []"
  have n: "length twentyVaults = 20"
    by (simp add: twentyVaults_def)
  have ne: "twentyVaults \<noteq> []" using n by auto
  have s: "length (vaults ?s) = 20"
    by (simp add: mount_def effect_def n ne)
  have t: "length (vaults ?t) = 15"
    by (simp add: mount_def effect_def n ne)
  have "(0::nat) < 20" and "(15::nat) \<le> 15" by simp_all
  with delays_of_run [of ?s "plainEnv True"] delays_of_run [of ?t "plainEnv True"]
  show ?thesis
    by (simp add: Let_def s t)
qed

subsection \<open>One load attempt for a cache key\<close>

lemma attemptsIn_append [simp]: "attemptsIn (xs @ ys) = attemptsIn xs @ attemptsIn ys"
  by (induction xs rule: attemptsIn.induct) simp_all

lemma attemptKeys_append [simp]: "attemptKeys (xs @ ys) = attemptKeys xs @ attemptKeys ys"
  by (simp add: attemptKeys_def)

lemma cacheKeyOfQuery_queryKeyOf [simp]: "cacheKeyOfQuery (queryKeyOf c a) = cacheKeyOf c a"
  by (simp add: queryKeyOf_def cacheKeyOf_def)

lemma fresh_refl: "fresh s s"
  by (simp add: fresh_def)

lemma fresh_trans:
  assumes "fresh a b" and "fresh b c"
  shows "fresh a c"
proof -
  from assms(1) obtain ks where
    ks: "attemptKeys (trace b) = attemptKeys (trace a) @ ks" "distinct ks"
      "set ks \<inter> preloadedSet a = {}" "preloadedSet b = preloadedSet a \<union> set ks"
    unfolding fresh_def by blast
  from assms(2) obtain ls where
    ls: "attemptKeys (trace c) = attemptKeys (trace b) @ ls" "distinct ls"
      "set ls \<inter> preloadedSet b = {}" "preloadedSet c = preloadedSet b \<union> set ls"
    unfolding fresh_def by blast
  have "attemptKeys (trace c) = attemptKeys (trace a) @ (ks @ ls)"
    using ks(1) ls(1) by simp
  moreover have "distinct (ks @ ls)"
    using ks(2,4) ls(2,3) by auto
  moreover have "set (ks @ ls) \<inter> preloadedSet a = {}"
    using ks(3,4) ls(3) by auto
  moreover have "preloadedSet c = preloadedSet a \<union> set (ks @ ls)"
    using ks(4) ls(4) by auto
  ultimately show ?thesis unfolding fresh_def by blast
qed

lemma fresh_event:
  "attemptsIn [x] = [] \<Longrightarrow> fresh s (s\<lparr>trace := trace s @ [x]\<rparr>)"
  by (simp add: fresh_def attemptKeys_def)

lemma fresh_preloadImage_start:
  assumes "preloadImage_start e c a s = (p, s')"
  shows "fresh s s'"
proof (cases p)
  case None
  with assms have "attemptKeys (trace s') = attemptKeys (trace s)" "preloadedSet s' = preloadedSet s"
    by (auto simp: preloadImage_start_def Let_def attemptKeys_def split: if_splits)
  then show ?thesis by (simp add: fresh_def)
next
  case (Some q)
  with assms have "cacheKeyOf c a \<notin> preloadedSet s"
    and "attemptKeys (trace s') = attemptKeys (trace s) @ [cacheKeyOf c a]"
    and "preloadedSet s' = insert (cacheKeyOf c a) (preloadedSet s)"
    by (auto simp: preloadImage_start_def Let_def attemptKeys_def split: if_splits)
  then show ?thesis unfolding fresh_def by (intro exI [of _ "[cacheKeyOf c a]"]) simp
qed

lemma fresh_preloadImage_settle:
  assumes "preloadImage_settle e p s = (r, s')"
  shows "fresh s s'"
proof -
  from assms have "attemptKeys (trace s') = attemptKeys (trace s)" "preloadedSet s' = preloadedSet s"
    by (auto simp: preloadImage_settle_def attemptKeys_def
        split: sum.splits prod.splits)
  then show ?thesis by (simp add: fresh_def)
qed

lemma fresh_preloadInBatches: "preloadInBatches e s = (r, s') \<Longrightarrow> fresh s s'"
  by (rule run_lift [where R = fresh and e = e])
    (auto intro: fresh_refl fresh_trans fresh_event
      fresh_preloadImage_start fresh_preloadImage_settle)

lemma attempts_fresh:
  assumes "preloadInBatches e s = (r, s')"
  shows "distinct (attemptKeys (emitted s s'))"
    and "set (attemptKeys (emitted s s')) \<inter> preloadedSet s = {}"
    and "preloadedSet s' = preloadedSet s \<union> set (attemptKeys (emitted s s'))"
proof -
  have "trace s' = trace s @ emitted s s'"
    using extends_preloadInBatches [OF assms] by (rule trace_emitted)
  then have "attemptKeys (trace s') = attemptKeys (trace s) @ attemptKeys (emitted s s')"
    by simp
  moreover from fresh_preloadInBatches [OF assms] obtain ks where
    "attemptKeys (trace s') = attemptKeys (trace s) @ ks" "distinct ks"
    "set ks \<inter> preloadedSet s = {}" "preloadedSet s' = preloadedSet s \<union> set ks"
    unfolding fresh_def by blast
  ultimately show "distinct (attemptKeys (emitted s s'))"
    and "set (attemptKeys (emitted s s')) \<inter> preloadedSet s = {}"
    and "preloadedSet s' = preloadedSet s \<union> set (attemptKeys (emitted s s'))"
    by simp_all
qed

lemma distinct_count_le_1: "distinct xs \<Longrightarrow> length (filter (\<lambda>x. x = k) xs) \<le> 1"
proof (induction xs)
  case Nil
  show ?case by simp
next
  case (Cons x xs)
  show ?case
  proof (cases "x = k")
    case True
    with Cons.prems have "filter (\<lambda>x. x = k) xs = []"
      by (auto simp: filter_empty_conv)
    with True show ?thesis by simp
  next
    case False
    with Cons show ?thesis by simp
  qed
qed

text \<open>
  C4. In a run no cache key is attempted twice, whatever the images do: the keys of the
  load attempts of a run are pairwise different, none of them was in the set when the run
  began, and all of them are in the set when it ends. A call of \<^verbatim>\<open>preloadImage\<close>
  whose key is in the set returns at once, and a call that issues a load has put its key
  into the set.
\<close>

theorem one_attempt_per_key:
  "let s' = snd (preloadInBatches e s); ev = emitted s s'
   in distinct (attemptKeys ev) \<and>
      (\<forall>k. length (filter (\<lambda>x. x = k) (attemptKeys ev)) \<le> 1) \<and>
      set (attemptKeys ev) \<inter> preloadedSet s = {} \<and>
      preloadedSet s' = preloadedSet s \<union> set (attemptKeys ev) \<and>
      (\<forall>c a t. cacheKeyOf c a \<in> preloadedSet t \<longrightarrow> preloadImage_start e c a t = (None, t)) \<and>
      (\<forall>c a t p t'. preloadImage_start e c a t = (Some p, t') \<longrightarrow>
         cacheKeyOf c a \<notin> preloadedSet t \<and> cacheKeyOf c a \<in> preloadedSet t')"
proof -
  obtain r s' where run: "preloadInBatches e s = (r, s')"
    by (cases "preloadInBatches e s")
  note a = attempts_fresh [OF run]
  have once: "length (filter (\<lambda>x. x = k) (attemptKeys (emitted s s'))) \<le> 1" for k
    using a(1) by (rule distinct_count_le_1)
  have skip: "preloadImage_start e c a t = (None, t)" if "cacheKeyOf c a \<in> preloadedSet t" for c a t
    using that by (simp add: preloadImage_start_def)
  have mark: "cacheKeyOf c a \<notin> preloadedSet t \<and> cacheKeyOf c a \<in> preloadedSet t'"
    if "preloadImage_start e c a t = (Some p, t')" for c a t p t'
    using that by (auto simp: preloadImage_start_def Let_def split: if_splits)
  have s': "snd (preloadInBatches e s) = s'"
    by (simp add: run)
  show ?thesis
    unfolding Let_def s'
  proof (intro conjI allI impI)
    show "distinct (attemptKeys (emitted s s'))" by (rule a(1))
    show "set (attemptKeys (emitted s s')) \<inter> preloadedSet s = {}" by (rule a(2))
    show "preloadedSet s' = preloadedSet s \<union> set (attemptKeys (emitted s s'))" by (rule a(3))
  qed (rule once, erule skip, (drule mark, blast)+)
qed

theorem one_attempt_per_key_witness:
  "distinct (attemptKeys (emitted (mount threeRefs Map.empty [])
      (snd (preloadInBatches (plainEnv False) (mount threeRefs Map.empty []))))) \<and>
   attemptKeys (emitted (mount threeRefs Map.empty [])
      (snd (preloadInBatches (plainEnv False) (mount threeRefs Map.empty []))))
     = [''1-0xabc'', ''10-0xabc''] \<and>
   preloadImage_start (plainEnv False) 1 ''0xABC''
      (snd (preloadInBatches (plainEnv False) (mount threeRefs Map.empty [])))
     = (None, snd (preloadInBatches (plainEnv False) (mount threeRefs Map.empty [])))"
proof -
  let ?s = "mount threeRefs Map.empty []"
  let ?s' = "snd (preloadInBatches (plainEnv False) ?s)"
  have keys: "attemptKeys (emitted ?s ?s') = [''1-0xabc'', ''10-0xabc'']"
    by code_simp
  have key: "cacheKeyOf 1 ''0xABC'' = ''1-0xabc''"
    by code_simp
  have empty: "preloadedSet ?s = {}"
    by (simp add: mount_def effect_def)
  note run = one_attempt_per_key [where s = ?s and e = "plainEnv False", unfolded Let_def]
  have d: "distinct (attemptKeys (emitted ?s ?s'))"
    using run by (rule conjunct1)
  have p: "preloadedSet ?s' = preloadedSet ?s \<union> set (attemptKeys (emitted ?s ?s'))"
    using run [THEN conjunct2, THEN conjunct2, THEN conjunct2] by (rule conjunct1)
  have k: "cacheKeyOf 1 ''0xABC'' \<in> preloadedSet ?s' \<longrightarrow>
      preloadImage_start (plainEnv False) 1 ''0xABC'' ?s' = (None, ?s')"
    using run [THEN conjunct2, THEN conjunct2, THEN conjunct2, THEN conjunct2, THEN conjunct1]
    by (rule allE [THEN allE, THEN allE])
  have "cacheKeyOf 1 ''0xABC'' \<in> preloadedSet ?s'"
    unfolding p keys key empty by simp
  with k have "preloadImage_start (plainEnv False) 1 ''0xABC'' ?s' = (None, ?s')"
    by (rule mp)
  with d keys show ?thesis by (intro conjI)
qed









subsection \<open>The check of the cache\<close>

text \<open>
  C5, as the claim states it, fails: with the empty string stored under the query key of
  the only vault, the run still calls \<^verbatim>\<open>prefetchQuery\<close> for it.
\<close>

theorem cached_value_counterexample:
  "getQueryData (cache (mount [vaultRef 1 ''0xAbC''] (cacheWith '''') []))
      (queryKeyOf (chainId (vaultRef 1 ''0xAbC'')) (address (asset (vaultRef 1 ''0xAbC''))))
     = Some '''' \<and>
   attemptsIn (trace (elapse (plainEnv True) 100 (mount [vaultRef 1 ''0xAbC''] (cacheWith '''') [])))
     = [((''token-image'', 1, ''0xabc''), ''/logos/1/0xAbC.svg'')]"
  by code_simp

text \<open>
  C5, amended. When the cache holds a truthy value (a string that is not empty) under the
  query key of a vault reference at the moment \<^verbatim>\<open>preloadImage\<close> is called for it, the
  call reads the cache at most once and returns: no load attempt is issued, and neither
  the set nor the cache changes.
\<close>

theorem truthy_value_no_attempt:
  assumes "truthy (getQueryData (cache s) (queryKeyOf c a))"
  shows "fst (preloadImage_start e c a s) = None \<and>
     attemptsIn (trace (snd (preloadImage_start e c a s))) = attemptsIn (trace s) \<and>
     preloadedSet (snd (preloadImage_start e c a s)) = preloadedSet s \<and>
     cache (snd (preloadImage_start e c a s)) = cache s"
  using assms by (simp add: preloadImage_start_def Let_def)

theorem truthy_value_no_attempt_witness:
  "truthy (getQueryData (cache (mount [vaultRef 1 ''0xAbC''] (cacheWith ''/logos/1/0xabc.svg'') []))
      (queryKeyOf 1 ''0xAbC'')) \<and>
   fst (preloadImage_start (plainEnv True) 1 ''0xAbC''
      (mount [vaultRef 1 ''0xAbC''] (cacheWith ''/logos/1/0xabc.svg'') [])) = None \<and>
   attemptsIn (trace (snd (preloadImage_start (plainEnv True) 1 ''0xAbC''
      (mount [vaultRef 1 ''0xAbC''] (cacheWith ''/logos/1/0xabc.svg'') [])))) =
   attemptsIn (trace (mount [vaultRef 1 ''0xAbC''] (cacheWith ''/logos/1/0xabc.svg'') []))"
proof -
  let ?s = "mount [vaultRef 1 ''0xAbC''] (cacheWith ''/logos/1/0xabc.svg'') []"
  have t: "truthy (getQueryData (cache ?s) (queryKeyOf 1 ''0xAbC''))"
    by code_simp
  note r = truthy_value_no_attempt [OF t, of "plainEnv True"]
  show ?thesis
    using t r [THEN conjunct1] r [THEN conjunct2, THEN conjunct1] by (intro conjI)
qed

text \<open>
  C10, as the claim states it, fails: the check of the set comes before the check of the
  cache. With the empty string in the cache under the query key, the first run reads the
  cache once and issues one load attempt, for the first spelling; the second spelling, whose
  cache key is in the set by then, gets no load attempt and no reading of the cache. After
  the run the cache still holds the empty string under the key, and the run that follows
  the next render neither reads the cache nor issues a load attempt for the vault.
\<close>

theorem falsy_value_counterexample:
  "getQueryData (cache twoSpellings) (queryKeyOf 1 ''0xabc'') = Some '''' \<and>
   emitted twoSpellings (elapse (plainEnv True) 100 twoSpellings) =
     [ConsoleLog ''Starting to preload 2 token images in batches of 15'',
      GetQueryData (''token-image'', 1, ''0xabc''),
      PrefetchQuery (''token-image'', 1, ''0xabc'') ''/logos/1/0xAbC.svg'',
      AllSettled [vaultRef 1 ''0xAbC'', vaultRef 1 ''0xabc''],
      ConsoleLog ''Finished preloading token images''] \<and>
   timer renderedAgain = Some 100 \<and>
   getQueryData (cache renderedAgain) (queryKeyOf 1 ''0xabc'') = Some '''' \<and>
   emitted renderedAgain (elapse (plainEnv True) 100 renderedAgain) =
     [ConsoleLog ''Starting to preload 1 token images in batches of 15'',
      AllSettled [vaultRef 1 ''0xabc''],
      ConsoleLog ''Finished preloading token images'']"
  by code_simp

text \<open>
  C10, amended. The check of the cache is a test of truthiness. For a vault reference
  whose cache key is not in the set of attempted keys: when the cache holds the empty
  string under the query key, the call reads the cache and issues the load attempt; when
  it holds any string that is not empty, the call reads the cache and returns without a
  load attempt; and the call returns early exactly when the cache holds a string that is
  not empty.
\<close>

theorem cache_check_is_truthiness:
  assumes "cacheKeyOf c a \<notin> preloadedSet s"
  shows "(cache s (queryKeyOf c a) = Some [] \<longrightarrow>
        fst (preloadImage_start e c a s) =
          Some \<lparr>p_address = a, p_queryKey = queryKeyOf c a, p_imageUrl = getSvgAsset e c a\<rparr> \<and>
        trace (snd (preloadImage_start e c a s)) =
          trace s @ [GetQueryData (queryKeyOf c a), PrefetchQuery (queryKeyOf c a) (getSvgAsset e c a)]) \<and>
     (\<forall>u. u \<noteq> [] \<and> cache s (queryKeyOf c a) = Some u \<longrightarrow>
        preloadImage_start e c a s = (None, s\<lparr>trace := trace s @ [GetQueryData (queryKeyOf c a)]\<rparr>)) \<and>
     (fst (preloadImage_start e c a s) = None \<longleftrightarrow>
        (\<exists>u. u \<noteq> [] \<and> cache s (queryKeyOf c a) = Some u))"
  using assms
  by (auto simp: preloadImage_start_def Let_def truthy_def getQueryData_def split: option.splits)

theorem cache_check_is_truthiness_witness:
  "cacheKeyOf 1 ''0xAbC'' \<notin> preloadedSet (mount [vaultRef 1 ''0xAbC''] (cacheWith '''') []) \<and>
   cache (mount [vaultRef 1 ''0xAbC''] (cacheWith '''') []) (queryKeyOf 1 ''0xAbC'') = Some [] \<and>
   trace (snd (preloadImage_start (plainEnv True) 1 ''0xAbC''
       (mount [vaultRef 1 ''0xAbC''] (cacheWith '''') []))) =
     trace (mount [vaultRef 1 ''0xAbC''] (cacheWith '''') []) @
       [GetQueryData (queryKeyOf 1 ''0xAbC''),
        PrefetchQuery (queryKeyOf 1 ''0xAbC'') (getSvgAsset (plainEnv True) 1 ''0xAbC'')] \<and>
   cacheKeyOf 1 ''0xAbC'' \<notin> preloadedSet (mount [vaultRef 1 ''0xAbC''] (cacheWith ''x'') []) \<and>
   cache (mount [vaultRef 1 ''0xAbC''] (cacheWith ''x'') []) (queryKeyOf 1 ''0xAbC'') = Some ''x'' \<and>
   preloadImage_start (plainEnv True) 1 ''0xAbC'' (mount [vaultRef 1 ''0xAbC''] (cacheWith ''x'') []) =
     (None, (mount [vaultRef 1 ''0xAbC''] (cacheWith ''x'') [])
        \<lparr>trace := trace (mount [vaultRef 1 ''0xAbC''] (cacheWith ''x'') []) @
                    [GetQueryData (queryKeyOf 1 ''0xAbC'')]\<rparr>)"
proof -
  let ?s = "mount [vaultRef 1 ''0xAbC''] (cacheWith '''') []"
  let ?t = "mount [vaultRef 1 ''0xAbC''] (cacheWith ''x'') []"
  have s1: "cacheKeyOf 1 ''0xAbC'' \<notin> preloadedSet ?s"
    by (simp add: mount_def effect_def)
  have s2: "cache ?s (queryKeyOf 1 ''0xAbC'') = Some []"
    by (simp add: mount_def effect_def cacheWith_def)
  have t1: "cacheKeyOf 1 ''0xAbC'' \<notin> preloadedSet ?t"
    by (simp add: mount_def effect_def)
  have t2: "''x'' \<noteq> [] \<and> cache ?t (queryKeyOf 1 ''0xAbC'') = Some ''x''"
    by (simp add: mount_def effect_def cacheWith_def)
  note a = cache_check_is_truthiness [OF s1, of "plainEnv True", THEN conjunct1, THEN mp, OF s2]
  note b = cache_check_is_truthiness [OF t1, of "plainEnv True", THEN conjunct2, THEN conjunct1,
      THEN spec, THEN mp, OF t2]
  show ?thesis
    using s1 s2 a [THEN conjunct2] t1 t2 [THEN conjunct2] b by (intro conjI)
qed

subsection \<open>The timer\<close>

lemma elapse_unarmed: "timer s = None \<Longrightarrow> elapse e t s = s"
  by (simp add: elapse_def)

lemma elapse_early: "timer s = Some r \<Longrightarrow> t < r \<Longrightarrow> elapse e t s = s\<lparr>timer := Some (r - t)\<rparr>"
  by (simp add: elapse_def)

lemma elapseAll_unarmed: "timer s = None \<Longrightarrow> elapseAll steps s = s"
  unfolding elapseAll_def by (induction steps) (simp_all add: elapse_unarmed split: prod.splits)

lemma elapseAll_early:
  "timer s = Some r \<Longrightarrow> sum_list (map snd steps) < r \<Longrightarrow>
   elapseAll steps s = s\<lparr>timer := Some (r - sum_list (map snd steps))\<rparr>"
proof (induction steps arbitrary: s r)
  case Nil
  then show ?case by (simp add: elapseAll_def)
next
  case (Cons x steps)
  obtain e t where x: "x = (e, t)" by (cases x)
  from Cons.prems x have t: "t < r" and rest: "sum_list (map snd steps) < r - t" by simp_all
  have a: "elapse e t s = s\<lparr>timer := Some (r - t)\<rparr>"
    using Cons.prems(1) t by (rule elapse_early)
  have "elapseAll steps (s\<lparr>timer := Some (r - t)\<rparr>) =
      s\<lparr>timer := Some (r - t), timer := Some (r - t - sum_list (map snd steps))\<rparr>"
    using Cons.IH [of "s\<lparr>timer := Some (r - t)\<rparr>" "r - t"] rest by simp
  then show ?case
    using a by (simp add: elapseAll_def x)
qed

lemma cancelled_run:
  assumes "sum_list (map snd steps) < 100"
  shows "cleanup (elapseAll steps (effect (cleanup s))) = cleanup s"
proof (cases "vaults s = []")
  case True
  then show ?thesis by (simp add: effect_def cleanup_def elapseAll_unarmed)
next
  case False
  then have "timer (effect (cleanup s)) = Some 100" by (simp add: effect_def cleanup_def)
  from elapseAll_early [OF this assms] False show ?thesis
    by (simp add: effect_def cleanup_def)
qed

text \<open>
  C8. When the component is unmounted, or rendered with another array, before 100 ms
  have passed since the effect armed its timer, the run never starts: the state is the one
  before the effect but for the timer, which is cleared (nothing was read from the cache,
  nothing written to it, nothing added to the set or to the trace), and no later passing
  of time changes it. A render with another array leaves only its own timer armed.
\<close>

theorem cancel_before_deferral:
  assumes "sum_list (map snd steps) < 100"
  shows "unmount (elapseAll steps (rerender vs s)) = s\<lparr>vaults := vs, timer := None\<rparr> \<and>
     unmount (elapseAll steps (mount vs c tr)) =
       \<lparr>vaults = vs, preloadedSet = {}, timer = None, cache = c, trace = tr\<rparr> \<and>
     attemptsIn (trace (unmount (elapseAll steps (rerender vs s)))) = attemptsIn (trace s) \<and>
     trace (unmount (elapseAll steps (rerender vs s))) = trace s \<and>
     cache (unmount (elapseAll steps (rerender vs s))) = cache s \<and>
     preloadedSet (unmount (elapseAll steps (rerender vs s))) = preloadedSet s \<and>
     (\<forall>later. elapseAll later (unmount (elapseAll steps (rerender vs s))) =
        unmount (elapseAll steps (rerender vs s))) \<and>
     rerender vs' (elapseAll steps (rerender vs s)) = rerender vs' s"
proof -
  have a: "unmount (elapseAll steps (rerender vs s)) = s\<lparr>vaults := vs, timer := None\<rparr>"
    using cancelled_run [OF assms, of "s\<lparr>vaults := vs\<rparr>"]
    by (simp add: unmount_def rerender_def cleanup_def)
  have b: "unmount (elapseAll steps (mount vs c tr)) =
      \<lparr>vaults = vs, preloadedSet = {}, timer = None, cache = c, trace = tr\<rparr>"
    using cancelled_run [OF assms, of "\<lparr>vaults = vs, preloadedSet = {}, timer = None, cache = c, trace = tr\<rparr>"]
    by (simp add: unmount_def mount_def cleanup_def)
  have c: "elapseAll later (unmount (elapseAll steps (rerender vs s))) =
      unmount (elapseAll steps (rerender vs s))" for later
    unfolding a by (rule elapseAll_unarmed) simp
  have "cleanup ((elapseAll steps (rerender vs s))\<lparr>vaults := vs'\<rparr>) =
      (cleanup (elapseAll steps (rerender vs s)))\<lparr>vaults := vs'\<rparr>"
    by (simp add: cleanup_def)
  also have "\<dots> = cleanup (s\<lparr>vaults := vs'\<rparr>)"
    using a by (simp add: unmount_def cleanup_def)
  finally have d: "rerender vs' (elapseAll steps (rerender vs s)) = rerender vs' s"
    by (simp add: rerender_def)
  show ?thesis
    using b c d unfolding a by simp
qed

theorem cancel_before_deferral_witness:
  "sum_list (map snd [(plainEnv True, 40), (plainEnv True, 59)]) < (100::nat) \<and>
   unmount (elapseAll [(plainEnv True, 40), (plainEnv True, 59)] (mount threeRefs Map.empty [])) =
     \<lparr>vaults = threeRefs, preloadedSet = {}, timer = None, cache = Map.empty, trace = []\<rparr> \<and>
   attemptsIn (trace (elapseAll [(plainEnv True, 40), (plainEnv True, 60)] (mount threeRefs Map.empty [])))
     \<noteq> []"
proof -
  have h: "sum_list (map snd [(plainEnv True, 40), (plainEnv True, 59)]) < (100::nat)"
    by simp
  have fired: "attemptsIn (trace (elapseAll [(plainEnv True, 40), (plainEnv True, 60)]
      (mount threeRefs Map.empty []))) \<noteq> []"
    by code_simp
  show ?thesis
    using h cancel_before_deferral [OF h, THEN conjunct2, THEN conjunct1, of threeRefs Map.empty "[]"]
      fired
    by (intro conjI)
qed

subsection \<open>The set across runs\<close>

lemma emitted_same_trace: "trace s = trace t \<Longrightarrow> emitted s s' = emitted t s'"
  by (simp add: emitted_def)

lemma emitted_nothing: "trace s' = trace s \<Longrightarrow> emitted s s' = []"
  by (simp add: emitted_def)

lemma elapse_fresh:
  "distinct (attemptKeys (emitted s (elapse e t s))) \<and>
   set (attemptKeys (emitted s (elapse e t s))) \<inter> preloadedSet s = {} \<and>
   preloadedSet (elapse e t s) = preloadedSet s \<union> set (attemptKeys (emitted s (elapse e t s)))"
proof (cases "\<exists>r. timer s = Some r \<and> r \<le> t")
  case False
  then have "trace (elapse e t s) = trace s" and "preloadedSet (elapse e t s) = preloadedSet s"
    by (auto simp: elapse_def split: option.splits)
  then show ?thesis by (simp add: emitted_nothing attemptKeys_def)
next
  case True
  let ?s0 = "s\<lparr>timer := None\<rparr>"
  obtain x s' where run: "preloadInBatches e ?s0 = (x, s')"
    by (cases "preloadInBatches e ?s0")
  from True have el: "elapse e t s = s'"
    by (auto simp: elapse_def run)
  have em: "emitted s s' = emitted ?s0 s'"
    by (rule emitted_same_trace) simp
  show ?thesis
    unfolding el em using attempts_fresh [OF run] by simp
qed

text \<open>
  C7, as the claim states it, fails. When the second render arms its timer the set still
  holds the key of the first run, whose load failed and left nothing in the cache; the
  second run skips the vault with that key without reading the cache, and attempts only
  the other vault.
\<close>

theorem attempted_set_counterexample:
  "timer secondRender = Some 100 \<and>
   ''1-0xabc'' \<in> preloadedSet secondRender \<and>
   cacheKeyOf 1 ''0xabc'' = ''1-0xabc'' \<and>
   getQueryData (cache secondRender) (queryKeyOf 1 ''0xabc'') = None \<and>
   emitted secondRender afterSecondRun =
     [ConsoleLog ''Starting to preload 2 token images in batches of 15'',
      GetQueryData (''token-image'', 10, ''0xabc''),
      PrefetchQuery (''token-image'', 10, ''0xabc'') ''/logos/10/0xAbC.svg'',
      AllSettled [vaultRef 1 ''0xabc'', vaultRef 10 ''0xAbC''],
      ConsoleLog ''Finished preloading token images'']"
  by code_simp

text \<open>
  C7, amended. The set of attempted cache keys belongs to the mounted component, not
  to a run: a render with another array keeps the set, the passing of time (a run
  included) only adds to it, and every key a run attempts is in the set afterwards. So no
  key that is in the set when the array changes is attempted by the run that follows, and
  a key attempted by one run is not attempted by the run after the next render, whether
  its load failed or not. Only a newly mounted component starts with the empty set.
\<close>

theorem attempted_set_spans_runs:
  "preloadedSet (rerender vs s) = preloadedSet s \<and>
   preloadedSet s \<subseteq> preloadedSet (elapse e t s) \<and>
   set (attemptKeys (emitted s (elapse e t s))) \<subseteq> preloadedSet (elapse e t s) \<and>
   set (attemptKeys (emitted s (elapse e t (rerender vs s)))) \<inter> preloadedSet s = {} \<and>
   set (attemptKeys (emitted s (elapse e t s))) \<inter>
     set (attemptKeys (emitted (elapse e t s) (elapse e' t' (rerender vs (elapse e t s))))) = {} \<and>
   preloadedSet (mount vs c tr) = {}"
proof -
  have a: "preloadedSet (rerender vs s) = preloadedSet s" for vs s
    by (simp add: rerender_def effect_def cleanup_def)
  have b: "preloadedSet s \<subseteq> preloadedSet (elapse e t s)"
    and b': "set (attemptKeys (emitted s (elapse e t s))) \<subseteq> preloadedSet (elapse e t s)"
    using elapse_fresh [of s e t] by blast+
  have c: "set (attemptKeys (emitted s (elapse e t (rerender vs s)))) \<inter> preloadedSet s = {}"
    for vs s e t
  proof -
    have "trace (rerender vs s) = trace s"
      by (simp add: rerender_def effect_def cleanup_def)
    then have "emitted s (elapse e t (rerender vs s)) =
        emitted (rerender vs s) (elapse e t (rerender vs s))"
      by (intro emitted_same_trace) simp
    then show ?thesis
      using elapse_fresh [of "rerender vs s" e t] by (simp add: a)
  qed
  have d: "set (attemptKeys (emitted s (elapse e t s))) \<inter>
      set (attemptKeys (emitted (elapse e t s) (elapse e' t' (rerender vs (elapse e t s))))) = {}"
    using b' c [of "elapse e t s" e' t' vs] by blast
  have f: "preloadedSet (mount vs c tr) = {}"
    by (simp add: mount_def effect_def)
  from a b b' c d f show ?thesis by (intro conjI)
qed

subsection \<open>What a run changes\<close>

lemma populates_refl: "populates e s s"
  by (simp add: populates_def)

lemma populates_trans:
  assumes "populates e a b" and "populates e b c"
  shows "populates e a c"
proof -
  from assms have v: "vaults b = vaults a" "vaults c = vaults a"
    and t: "timer c = timer a" and p: "preloadedSet a \<subseteq> preloadedSet c"
    by (auto simp: populates_def)
  have "cache c k = cache a k \<or>
      (\<exists>v \<in> set (vaults a). k = p_queryKey (pendingOf e v) \<and> cache c k = Some (p_imageUrl (pendingOf e v)))"
    for k
  proof (cases "cache c k = cache b k")
    case True
    with assms(1) show ?thesis unfolding populates_def by metis
  next
    case False
    with assms(2) v show ?thesis unfolding populates_def by metis
  qed
  with v t p show ?thesis by (simp add: populates_def)
qed

lemma populates_event: "populates e s (s\<lparr>trace := trace s @ [x]\<rparr>)"
  by (simp add: populates_def)

lemma issueAll_pending:
  "issueAll e vs s = (ps, s') \<Longrightarrow>
   cache s' = cache s \<and> timer s' = timer s \<and> preloadedSet s \<subseteq> preloadedSet s' \<and>
   (\<forall>p. Some p \<in> set ps \<longrightarrow> p \<in> pendingOf e ` set vs)"
proof (induction vs arbitrary: s ps s')
  case Nil
  then show ?case by auto
next
  case (Cons v vs)
  obtain p s1 where a: "preloadImage_start e (chainId v) (address (asset v)) s = (p, s1)"
    by (cases "preloadImage_start e (chainId v) (address (asset v)) s")
  obtain ps' s2 where b: "issueAll e vs s1 = (ps', s2)"
    by (cases "issueAll e vs s1")
  from Cons.prems a b have eq: "ps = p # ps'" "s' = s2" by simp_all
  from a have one: "cache s1 = cache s" "timer s1 = timer s" "preloadedSet s \<subseteq> preloadedSet s1"
    "p = None \<or> p = Some (pendingOf e v)"
    by (auto simp: preloadImage_start_def Let_def pendingOf_def split: if_splits)
  from Cons.IH [OF b] one eq show ?case by auto
qed

lemma settleAll_cache:
  "writesOwnKey e \<Longrightarrow> settleAll e ps s = (rs, s') \<Longrightarrow>
   timer s' = timer s \<and> preloadedSet s' = preloadedSet s \<and>
   (\<forall>k. cache s' k = cache s k \<or>
      (\<exists>p \<in> set ps. k = p_queryKey p \<and> cache s' k = Some (p_imageUrl p)))"
proof (induction ps arbitrary: s rs s')
  case Nil
  then show ?case by auto
next
  case (Cons p ps)
  obtain r s1 where a: "preloadImage_settle e p s = (r, s1)"
    by (cases "preloadImage_settle e p s")
  obtain rs' s2 where b: "settleAll e ps s1 = (rs', s2)"
    by (cases "settleAll e ps s1")
  from Cons.prems a b have eq: "s' = s2" by simp
  from a have "timer s1 = timer s" "preloadedSet s1 = preloadedSet s"
    and c: "cache s1 = snd (prefetchQuery e (p_queryKey p) (queryFn e (p_imageUrl p)) (cache s))"
    by (auto simp: preloadImage_settle_def split: sum.splits prod.splits)
  moreover from Cons.prems(1)
  have "snd (prefetchQuery e (p_queryKey p) (queryFn e (p_imageUrl p)) (cache s)) = cache s \<or>
      (\<exists>d. queryFn e (p_imageUrl p) = Inr d \<and>
         snd (prefetchQuery e (p_queryKey p) (queryFn e (p_imageUrl p)) (cache s)) =
           (cache s)(p_queryKey p \<mapsto> d))"
    unfolding writesOwnKey_def by blast
  then have "cache s1 = cache s \<or> cache s1 = (cache s)(p_queryKey p \<mapsto> p_imageUrl p)"
    unfolding c by (auto simp: queryFn_def split: if_splits)
  ultimately have one: "timer s1 = timer s" "preloadedSet s1 = preloadedSet s"
    "cache s1 = cache s \<or> cache s1 = (cache s)(p_queryKey p \<mapsto> p_imageUrl p)"
    by simp_all
  note ih = Cons.IH [OF Cons.prems(1) b]
  have "cache s2 k = cache s k \<or>
      (\<exists>q \<in> set (p # ps). k = p_queryKey q \<and> cache s2 k = Some (p_imageUrl q))" for k
  proof (cases "cache s2 k = cache s1 k")
    case True
    with one(3) show ?thesis by (auto split: if_splits)
  next
    case False
    from ih have "cache s2 k = cache s1 k \<or>
        (\<exists>q \<in> set ps. k = p_queryKey q \<and> cache s2 k = Some (p_imageUrl q))"
      by blast
    with False obtain q where "q \<in> set ps" "k = p_queryKey q" "cache s2 k = Some (p_imageUrl q)"
      by blast
    then show ?thesis by (intro disjI2 bexI [of _ q]) simp_all
  qed
  with ih one eq show ?case by simp
qed

lemma set_map_filter_id: "set (List.map_filter id ps) = {p. Some p \<in> set ps}"
  by (induction ps) (auto simp: List.map_filter_simps split: option.splits)

lemma set_slice: "set (slice xs i j) \<subseteq> set xs"
  unfolding slice_def by (meson set_take_subset set_drop_subset subset_trans)

lemma populates_allSettledBatch:
  assumes own: "writesOwnKey e"
    and "allSettledBatch e (slice (vaults s) i (i + batchSize)) s = (r, s')"
  shows "populates e s s'"
proof -
  let ?b = "slice (vaults s) i (i + batchSize)"
  obtain ps s1 where a: "issueAll e ?b s = (ps, s1)"
    by (cases "issueAll e ?b s")
  let ?s0 = "s1\<lparr>trace := trace s1 @ [AllSettled ?b]\<rparr>"
  let ?l = "completionOrder e (List.map_filter id ps)"
  obtain rs s2 where c: "settleAll e ?l ?s0 = (rs, s2)"
    by (cases "settleAll e ?l ?s0")
  from assms a c have eq: "s' = s2" by (simp add: allSettledBatch_def)
  have v: "vaults s' = vaults s" using vaults_allSettledBatch [OF assms(2)] .
  note i = issueAll_pending [OF a]
  have t: "timer s2 = timer s1 \<and> preloadedSet s2 = preloadedSet s1 \<and>
      (\<forall>k. cache s2 k = cache s1 k \<or>
         (\<exists>p \<in> set ?l. k = p_queryKey p \<and> cache s2 k = Some (p_imageUrl p)))"
    using settleAll_cache [OF own c] by simp
  have sl: "set ?l = {p. Some p \<in> set ps}"
    by (simp add: completionOrder_def set_map_filter_id)
  have "pendingOf e ` set ?b \<subseteq> pendingOf e ` set (vaults s)"
    by (rule image_mono) (rule set_slice)
  moreover from i have "{p. Some p \<in> set ps} \<subseteq> pendingOf e ` set ?b"
    by blast
  ultimately have l: "set ?l \<subseteq> pendingOf e ` set (vaults s)"
    unfolding sl by (rule subset_trans [rotated])
  have "cache s2 k = cache s k \<or>
      (\<exists>v \<in> set (vaults s). k = p_queryKey (pendingOf e v) \<and>
         cache s2 k = Some (p_imageUrl (pendingOf e v)))" for k
  proof (cases "cache s2 k = cache s1 k")
    case True
    with i show ?thesis by simp
  next
    case False
    with t obtain p where "p \<in> set ?l" "k = p_queryKey p" "cache s2 k = Some (p_imageUrl p)"
      by blast
    with l show ?thesis by blast
  qed
  with v i t eq show ?thesis by (simp add: populates_def)
qed

lemma populates_preloadInBatches:
  assumes own: "writesOwnKey e" and run: "preloadInBatches e s = (r, s')"
  shows "populates e s s'"
  using populates_refl populates_trans populates_allSettledBatch [OF own] populates_event run
  by (rule preloadInBatches_lift [where R = "populates e" and e = e])

text \<open>What every run leaves alone, whatever the query client does.\<close>

lemma keeps_preloadInBatches:
  assumes "preloadInBatches e s = (r, s')"
  shows "vaults s' = vaults s \<and> timer s' = timer s"
proof (rule run_lift [where R = "\<lambda>s s'. vaults s' = vaults s \<and> timer s' = timer s" and e = e,
      OF _ _ _ _ _ assms])
  show "vaults s' = vaults s \<and> timer s' = timer s"
    if "preloadImage_start e c a s = (p, s')" for c a s p s'
    using that by (auto simp: preloadImage_start_def Let_def split: if_splits)
  show "vaults s' = vaults s \<and> timer s' = timer s"
    if "preloadImage_settle e p s = (r, s')" for p s r s'
    using that by (auto simp: preloadImage_settle_def split: sum.splits prod.splits)
qed simp_all

lemma vaults_elapse: "vaults (elapse e t s) = vaults s"
proof (cases "\<exists>r. timer s = Some r \<and> r \<le> t")
  case False
  then show ?thesis by (auto simp: elapse_def split: option.splits)
next
  case True
  obtain x s' where run: "preloadInBatches e (s\<lparr>timer := None\<rparr>) = (x, s')"
    by (cases "preloadInBatches e (s\<lparr>timer := None\<rparr>)")
  from True have "elapse e t s = s'" by (auto simp: elapse_def run)
  with keeps_preloadInBatches [OF run] show ?thesis by simp
qed

text \<open>
  C9. A run returns nothing (its promise resolves with \<^verbatim>\<open>undefined\<close>) and changes the
  state in three places only. The trace grows. The set grows. The cache is changed by the
  query client alone: with a client that writes, if at all, the data of the \<^verbatim>\<open>queryFn\<close>
  under the key it was called with, the cache changes at query keys of vaults of the array
  only, and holds there the image URL of such a vault. The array, with its elements, is
  after the run what it was before, also when the run is started by the timer; the timer
  is left alone by the run.
\<close>

theorem run_effects:
  "fst (preloadInBatches e s) = Inr () \<and>
   vaults (snd (preloadInBatches e s)) = vaults s \<and>
   vaults (elapse e t s) = vaults s \<and>
   timer (snd (preloadInBatches e s)) = timer s \<and>
   (\<exists>ev. trace (snd (preloadInBatches e s)) = trace s @ ev) \<and>
   preloadedSet s \<subseteq> preloadedSet (snd (preloadInBatches e s)) \<and>
   (writesOwnKey e \<longrightarrow>
      (\<forall>k. cache (snd (preloadInBatches e s)) k = cache s k \<or>
         (\<exists>v \<in> set (vaults s).
            k = queryKeyOf (chainId v) (address (asset v)) \<and>
            cache (snd (preloadInBatches e s)) k =
              Some (getSvgAsset e (chainId v) (address (asset v))))))"
proof -
  obtain r s' where run: "preloadInBatches e s = (r, s')"
    by (cases "preloadInBatches e s")
  have r: "r = Inr ()" using preloadInBatches_Inr [OF run] .
  have x: "\<exists>ev. trace s' = trace s @ ev"
    using extends_preloadInBatches [OF run] by (simp add: extends_def)
  have c: "cache s' k = cache s k \<or>
      (\<exists>v \<in> set (vaults s).
         k = queryKeyOf (chainId v) (address (asset v)) \<and>
         cache s' k = Some (getSvgAsset e (chainId v) (address (asset v))))"
    if own: "writesOwnKey e" for k
  proof -
    have sel: "p_queryKey (pendingOf e v) = queryKeyOf (chainId v) (address (asset v))"
      "p_imageUrl (pendingOf e v) = getSvgAsset e (chainId v) (address (asset v))" for v
      by (simp_all add: pendingOf_def)
    from populates_preloadInBatches [OF own run]
    have "\<forall>k. cache s' k = cache s k \<or>
        (\<exists>v \<in> set (vaults s). k = p_queryKey (pendingOf e v) \<and>
           cache s' k = Some (p_imageUrl (pendingOf e v)))"
      unfolding populates_def by (elim conjE)
    then have "cache s' k = cache s k \<or>
        (\<exists>v \<in> set (vaults s). k = p_queryKey (pendingOf e v) \<and>
           cache s' k = Some (p_imageUrl (pendingOf e v)))"
      by (rule spec)
    then show ?thesis unfolding sel .
  qed
  from keeps_preloadInBatches [OF run] have f: "vaults s' = vaults s" "timer s' = timer s"
    by simp_all
  have g: "preloadedSet s \<subseteq> preloadedSet s'"
    using attempts_fresh(3) [OF run] by simp
  show ?thesis
    unfolding run fst_conv snd_conv using r f g x c vaults_elapse [of e t s]
    by (intro conjI allI impI)
qed

theorem run_effects_witness:
  "writesOwnKey (plainEnv True) \<and>
   vaults (snd (preloadInBatches (plainEnv True) (mount threeRefs Map.empty []))) = threeRefs \<and>
   vaultRef 10 ''0xAbC'' \<in> set (vaults (mount threeRefs Map.empty [])) \<and>
   cache (snd (preloadInBatches (plainEnv True) (mount threeRefs Map.empty [])))
      (queryKeyOf 10 ''0xAbC'') = Some ''/logos/10/0xAbC.svg'' \<and>
   cache (snd (preloadInBatches (plainEnv True) (mount threeRefs Map.empty [])))
      (queryKeyOf 5 ''0xAbC'') = None"
proof -
  define s where "s = mount threeRefs Map.empty []"
  define s' where "s' = snd (preloadInBatches (plainEnv True) s)"
  define k where "k = queryKeyOf 5 ''0xAbC''"
  note th = run_effects [of "plainEnv True" s 0, folded s'_def]
  have own: "writesOwnKey (plainEnv True)"
    by (auto simp: writesOwnKey_def plainEnv_def libraryClient_def split: sum.splits)
  have v: "vaults s = threeRefs"
    by (simp add: s_def mount_def effect_def)
  have v': "vaults s' = threeRefs"
    using th [THEN conjunct2, THEN conjunct1] by (simp only: v)
  have "vaultRef 10 ''0xAbC'' \<in> set threeRefs"
    by (simp add: threeRefs_def)
  then have m: "vaultRef 10 ''0xAbC'' \<in> set (vaults s)"
    by (simp only: v)
  have hit: "cache s' (queryKeyOf 10 ''0xAbC'') = Some ''/logos/10/0xAbC.svg''"
    unfolding s'_def s_def by code_simp
  have other: "\<forall>v \<in> set threeRefs. k \<noteq> queryKeyOf (chainId v) (address (asset v))"
    unfolding k_def by code_simp
  have before: "cache s k = None"
    by (simp add: s_def mount_def effect_def)
  have "cache s' k = cache s k \<or>
      (\<exists>v \<in> set (vaults s).
         k = queryKeyOf (chainId v) (address (asset v)) \<and>
         cache s' k = Some (getSvgAsset (plainEnv True) (chainId v) (address (asset v))))"
    using th [THEN conjunct2, THEN conjunct2, THEN conjunct2, THEN conjunct2, THEN conjunct2,
        THEN conjunct2, THEN mp, OF own] by (rule spec)
  with other have "cache s' k = cache s k"
    unfolding v by blast
  with before have miss: "cache s' k = None" by simp
  from own v' m hit miss show ?thesis
    unfolding s'_def s_def k_def by (intro conjI)
qed

subsection \<open>Failed loads\<close>

lemma debugsIn_append [simp]: "debugsIn (xs @ ys) = debugsIn xs @ debugsIn ys"
  by (induction xs rule: debugsIn.induct) simp_all

lemma preloadImage_start_env:
  "preloadImage_start (e\<lparr>imageLoads := f, prefetchQuery := g\<rparr>) c a s = preloadImage_start e c a s"
  by (simp add: preloadImage_start_def)

text \<open>
  Which loads of a slice are issued depends neither on which images load nor on the query
  client: a failing item does not keep its siblings from being attempted.
\<close>

lemma issueAll_env:
  "issueAll (e\<lparr>imageLoads := f, prefetchQuery := g\<rparr>) vs s = issueAll e vs s"
  by (induction vs arbitrary: s) (simp_all add: preloadImage_start_env)

lemma issueAll_attempts:
  "issueAll e vs s = (ps, s') \<Longrightarrow>
   length ps = length vs \<and>
   debugsIn (trace s') = debugsIn (trace s) \<and>
   attemptsIn (trace s') =
     attemptsIn (trace s) @ map (\<lambda>p. (p_queryKey p, p_imageUrl p)) (List.map_filter id ps)"
proof (induction vs arbitrary: s ps s')
  case Nil
  then show ?case by (auto simp: List.map_filter_simps)
next
  case (Cons v vs)
  obtain p s1 where a: "preloadImage_start e (chainId v) (address (asset v)) s = (p, s1)"
    by (cases "preloadImage_start e (chainId v) (address (asset v)) s")
  obtain ps' s2 where b: "issueAll e vs s1 = (ps', s2)"
    by (cases "issueAll e vs s1")
  from Cons.prems a b have eq: "ps = p # ps'" "s' = s2" by simp_all
  from a have one: "debugsIn (trace s1) = debugsIn (trace s)"
    "attemptsIn (trace s1) =
       attemptsIn (trace s) @ (case p of None \<Rightarrow> [] | Some q \<Rightarrow> [(p_queryKey q, p_imageUrl q)])"
    by (auto simp: preloadImage_start_def Let_def split: if_splits)
  from Cons.IH [OF b] one show ?case
    unfolding eq by (cases p) (simp_all add: List.map_filter_simps)
qed

text \<open>
  The promise of \<^verbatim>\<open>preloadImage\<close> is fulfilled whatever the image and the query
  client do, and a rejection of \<^verbatim>\<open>prefetchQuery\<close>, if one arrives, is caught and
  written with \<^verbatim>\<open>console.debug\<close>.
\<close>

lemma preloadImage_settle_Inr: "fst (preloadImage_settle e p s) = Inr ()"
  by (simp add: preloadImage_settle_def split: prod.splits sum.splits)

lemma preloadImage_settle_caught:
  assumes "prefetchQuery e (p_queryKey p) (queryFn e (p_imageUrl p)) (cache s) = (Inl err, c)"
  shows "preloadImage_settle e p s =
     (Inr (), s\<lparr>cache := c,
                trace := trace s @
                  [ConsoleDebug (''Failed to preload image for '' @ p_address p @ '':'') err]\<rparr>)"
  using assms by (simp add: preloadImage_settle_def)

lemma attemptsIn_preloadImage_settle:
  "attemptsIn (trace (snd (preloadImage_settle e p s))) = attemptsIn (trace s)"
  by (simp add: preloadImage_settle_def split: prod.splits sum.splits)

lemma settleAll_results:
  "settleAll e ps s = (rs, s') \<Longrightarrow>
   rs = map (\<lambda>_. Inr ()) ps \<and> attemptsIn (trace s') = attemptsIn (trace s)"
proof (induction ps arbitrary: s rs s')
  case Nil
  then show ?case by auto
next
  case (Cons p ps)
  obtain r s1 where a: "preloadImage_settle e p s = (r, s1)"
    by (cases "preloadImage_settle e p s")
  obtain rs' s2 where b: "settleAll e ps s1 = (rs', s2)"
    by (cases "settleAll e ps s1")
  from Cons.prems a b have eq: "rs = r # rs'" "s' = s2" by simp_all
  from a have one: "r = Inr ()" "attemptsIn (trace s1) = attemptsIn (trace s)"
    using preloadImage_settle_Inr [of e p s] attemptsIn_preloadImage_settle [of e p s]
    by simp_all
  from Cons.IH [OF b] one show ?case
    unfolding eq by simp
qed

lemma length_map_filter_id:
  "length (filter (\<lambda>p. p = None) ps) + length (List.map_filter id ps) = length ps"
  by (induction ps) (auto simp: List.map_filter_simps split: option.splits)

lemma length_completionOrder: "length (completionOrder e xs) = length xs"
  by (simp add: completionOrder_def)

text \<open>
  Every call of \<^verbatim>\<open>Promise.allSettled\<close> resolves, with one outcome for each vault of the
  slice, each of them a fulfilment; and a run resolves (\<open>preloadInBatches_Inr\<close>).
\<close>

lemma allSettledBatch_fulfilled:
  assumes "allSettledBatch e b s = (r, s')"
  shows "r = Inr (replicate (length b) (Fulfilled ()))"
proof -
  obtain ps s1 where a: "issueAll e b s = (ps, s1)"
    by (cases "issueAll e b s")
  let ?s0 = "s1\<lparr>trace := trace s1 @ [AllSettled b]\<rparr>"
  let ?settled = "completionOrder e (List.map_filter id ps)"
  obtain rs s2 where c: "settleAll e ?settled ?s0 = (rs, s2)"
    by (cases "settleAll e ?settled ?s0")
  from assms a c
  have r: "r = Promise_allSettled (map (\<lambda>_. Inr ()) (filter (\<lambda>p. p = None) ps) @ rs)"
    by (simp add: allSettledBatch_def)
  note i = issueAll_attempts [OF a] and t = settleAll_results [OF c]
  have n: "length (filter (\<lambda>p. p = None) ps) + length ?settled = length b"
    using length_map_filter_id [of ps] i by (simp add: length_completionOrder)
  have "map (\<lambda>_. Inr ()) (filter (\<lambda>p. p = None) ps) @ rs =
      replicate (length (filter (\<lambda>p. p = None) ps) + length ?settled) (Inr ())"
    using t by (simp add: map_replicate_const replicate_add)
  then have "map (\<lambda>_. Inr ()) (filter (\<lambda>p. p = None) ps) @ rs = replicate (length b) (Inr ())"
    by (simp only: n)
  then show ?thesis
    unfolding r by (simp add: Promise_allSettled_def)
qed

text \<open>
  With the library's query client no rejection ever arrives: its \<^verbatim>\<open>prefetchQuery\<close>
  is fulfilled also when the \<^verbatim>\<open>queryFn\<close> rejects. So the \<^verbatim>\<open>catch\<close> of
  \<^verbatim>\<open>preloadImage\<close> is never entered and no step of a run writes a
  \<^verbatim>\<open>console.debug\<close> line.
\<close>

lemma libraryClient_Inr: "fst (libraryClient stale k r c) = Inr ()"
  by (simp add: libraryClient_def split: sum.splits)

lemma preloadImage_settle_library:
  assumes "prefetchQuery e = libraryClient stale"
  shows "trace (snd (preloadImage_settle e p s)) = trace s"
proof -
  obtain x c where a: "libraryClient stale (p_queryKey p) (queryFn e (p_imageUrl p)) (cache s) = (x, c)"
    by (cases "libraryClient stale (p_queryKey p) (queryFn e (p_imageUrl p)) (cache s)")
  have "x = Inr ()"
    using libraryClient_Inr [of stale "p_queryKey p" "queryFn e (p_imageUrl p)" "cache s"]
    by (simp add: a)
  then show ?thesis
    by (simp add: preloadImage_settle_def assms a)
qed

lemma settleAll_library:
  assumes "prefetchQuery e = libraryClient stale"
  shows "settleAll e ps s = (rs, s') \<Longrightarrow> debugsIn (trace s') = debugsIn (trace s)"
proof (induction ps arbitrary: s rs s')
  case Nil
  then show ?case by auto
next
  case (Cons p ps)
  obtain r s1 where a: "preloadImage_settle e p s = (r, s1)"
    by (cases "preloadImage_settle e p s")
  obtain rs' s2 where b: "settleAll e ps s1 = (rs', s2)"
    by (cases "settleAll e ps s1")
  from Cons.prems a b have eq: "s' = s2" by simp
  from a have one: "trace s1 = trace s"
    using preloadImage_settle_library [OF assms, of p s] by simp
  from Cons.IH [OF b] one show ?case
    unfolding eq by simp
qed

lemma allSettledBatch_library:
  assumes lib: "prefetchQuery e = libraryClient stale" and run: "allSettledBatch e b s = (r, s')"
  shows "debugsIn (trace s') = debugsIn (trace s)"
proof -
  obtain ps s1 where a: "issueAll e b s = (ps, s1)"
    by (cases "issueAll e b s")
  let ?s0 = "s1\<lparr>trace := trace s1 @ [AllSettled b]\<rparr>"
  let ?settled = "completionOrder e (List.map_filter id ps)"
  obtain rs s2 where c: "settleAll e ?settled ?s0 = (rs, s2)"
    by (cases "settleAll e ?settled ?s0")
  from run a c have eq: "s' = s2"
    by (simp add: allSettledBatch_def)
  from issueAll_attempts [OF a] settleAll_library [OF lib c] show ?thesis
    unfolding eq by simp
qed

lemma preloadInBatches_library:
  assumes lib: "prefetchQuery e = libraryClient stale" and run: "preloadInBatches e s = (r, s')"
  shows "debugsIn (emitted s s') = []"
proof -
  have same: "debugsIn (trace s') = debugsIn (trace s)"
  proof (rule preloadInBatches_lift
      [where R = "\<lambda>a b. debugsIn (trace b) = debugsIn (trace a)" and e = e, OF _ _ _ _ run])
    show "debugsIn (trace s) = debugsIn (trace s)" for s :: state
      by (rule refl)
    show "debugsIn (trace c) = debugsIn (trace a)"
      if "debugsIn (trace b) = debugsIn (trace a)" "debugsIn (trace c) = debugsIn (trace b)"
      for a b c :: state
      using that by simp
    show "debugsIn (trace s') = debugsIn (trace s)"
      if "allSettledBatch e (slice (vaults s) i (i + batchSize)) s = (r, s')" for i s r s'
      using lib that by (rule allSettledBatch_library)
    show "debugsIn (trace (s\<lparr>trace := trace s @ [x]\<rparr>)) = debugsIn (trace s)"
      if "(\<exists>m. x = ConsoleLog m) \<or> x = SetTimeout delay" for s x
      using that by auto
  qed
  have "trace s' = trace s @ emitted s s'"
    using extends_preloadInBatches [OF run] by (rule trace_emitted)
  then have "debugsIn (trace s') = debugsIn (trace s) @ debugsIn (emitted s s')"
    by simp
  with same show ?thesis by simp
qed

text \<open>
  C3. The part of the claim that says every failure of an item is recorded does not hold of
  the hook with the library's query client, although the \<^verbatim>\<open>catch\<close> of
  \<^verbatim>\<open>preloadImage\<close> is there to write the record. For every environment with that
  client, whichever images fail, a run writes no \<^verbatim>\<open>console.debug\<close> line. In a run
  over three vault references with an empty cache where every image fails, two load
  attempts are issued and both fail, the run resolves, and nothing is recorded.
\<close>

theorem failed_loads_not_logged:
  "debugsIn (emitted s (snd (preloadInBatches (e\<lparr>prefetchQuery := libraryClient stale\<rparr>) s))) = [] \<and>
   length (failedAttempts (plainEnv False)
     (emitted (mount threeRefs Map.empty [])
        (snd (preloadInBatches (plainEnv False) (mount threeRefs Map.empty []))))) = 2 \<and>
   debugsIn (emitted (mount threeRefs Map.empty [])
     (snd (preloadInBatches (plainEnv False) (mount threeRefs Map.empty [])))) = [] \<and>
   fst (preloadInBatches (plainEnv False) (mount threeRefs Map.empty [])) = Inr ()"
proof -
  let ?e = "e\<lparr>prefetchQuery := libraryClient stale\<rparr>"
  obtain r s' where run: "preloadInBatches ?e s = (r, s')"
    by (cases "preloadInBatches ?e s")
  have lib: "prefetchQuery ?e = libraryClient stale"
    by simp
  have a: "debugsIn (emitted s (snd (preloadInBatches ?e s))) = []"
    using preloadInBatches_library [OF lib run] by (simp add: run)
  have b: "length (failedAttempts (plainEnv False)
     (emitted (mount threeRefs Map.empty [])
        (snd (preloadInBatches (plainEnv False) (mount threeRefs Map.empty []))))) = 2"
    by code_simp
  have c: "debugsIn (emitted (mount threeRefs Map.empty [])
     (snd (preloadInBatches (plainEnv False) (mount threeRefs Map.empty [])))) = []"
    by code_simp
  have d: "fst (preloadInBatches (plainEnv False) (mount threeRefs Map.empty [])) = Inr ()"
    by code_simp
  from a b c d show ?thesis by (intro conjI)
qed

end
